theory Spec2Isabelle
  imports Main "HOL-Library.Sublist" "HOL-Library.Multiset" "HOL-Library.Code_Target_Nat"
begin

section \<open>Strings of the platform\<close>

text \<open>
  The crawler exists in two variants: \<^verbatim>\<open>src/webCrawler.ts\<close> (with its compiled
  \<^verbatim>\<open>webCrawler.js\<close>), which writes \<^verbatim>\<open>.mdx\<close> files, and the richer
  \<^verbatim>\<open>src/unnamed/part_000\<close>, which writes \<^verbatim>\<open>.md\<close> files, rewrites links, filters
  administrative pages and has a page ceiling. Definitions named as in the source embed
  \<^verbatim>\<open>part_000\<close>; the definitions of \<^verbatim>\<open>webCrawler.ts\<close> carry the suffix \<open>_wc\<close>.

  A string is a list of characters. Every string that reaches the normaliser in the
  program is the \<^verbatim>\<open>pathname\<close> of a parsed URL (or the empty string), which the platform
  serialises in ASCII; the character classes of the source's regular expressions are ranges
  of code points below 256, which \<^typ>\<open>char\<close> covers.
\<close>

definition startsWith :: "string \<Rightarrow> char \<Rightarrow> bool" where
  "startsWith s c = (case s of [] \<Rightarrow> False | x # _ \<Rightarrow> x = c)"

definition endsWith :: "string \<Rightarrow> char \<Rightarrow> bool" where
  "endsWith s c = (s \<noteq> [] \<and> last s = c)"

text \<open>\<^verbatim>\<open>r.includes('--')\<close>\<close>

fun includes_dd :: "string \<Rightarrow> bool" where
  "includes_dd (a # b # cs) = ((a = CHR ''-'' \<and> b = CHR ''-'') \<or> includes_dd (b # cs))"
| "includes_dd cs = False"

text \<open>\<^verbatim>\<open>r.split('--').join('-')\<close>: every occurrence of two dashes, found from the left
  without overlap, becomes one dash.\<close>

fun split_join :: "string \<Rightarrow> string" where
  "split_join (a # b # cs) =
     (if a = CHR ''-'' \<and> b = CHR ''-'' then CHR ''-'' # split_join cs
      else a # split_join (b # cs))"
| "split_join cs = cs"

section \<open>URL Normalizer of \<^verbatim>\<open>part_000\<close>\<close>

text \<open>The class of \<^verbatim>\<open>toMekanismiURI\<close>, \<^verbatim>\<open>[a-\u00f6A-\u00d60-9]\<close> with the two
  letters o with diaeresis written as escapes, by code point: \<^verbatim>\<open>a\<close> is 97, the small
  o with diaeresis 246, \<^verbatim>\<open>A\<close> is 65, the capital one 214. The negated class is
  replaced by a dash. The test \<^verbatim>\<open>s === null\<close> of the source is for a value that no
  caller passes.\<close>

definition allowed :: "char \<Rightarrow> bool" where
  "allowed c =
     (let n = (of_char c :: nat)
      in (97 \<le> n \<and> n \<le> 246) \<or> (65 \<le> n \<and> n \<le> 214) \<or> (48 \<le> n \<and> n \<le> 57))"

text \<open>\<^verbatim>\<open>while (r.includes('--')) { r = r.split('--').join('-') }\<close>\<close>

function collapse :: "string \<Rightarrow> string" where
  "collapse r = (if includes_dd r then collapse (split_join r) else r)"
  by pat_completeness auto
termination
proof (relation "measure length")
  show "wf (measure length)" by simp
next
  fix r :: string
  assume dd: "includes_dd r"
  have le: "length (split_join x) \<le> length x" for x
    by (induction x rule: split_join.induct) auto
  from dd have "length (split_join r) < length r"
  proof (induction r rule: split_join.induct)
    case (1 a b cs)
    then show ?case
      using le [of cs] by (auto simp: less_Suc_eq_le)
  qed simp_all
  then show "(split_join r, r) \<in> measure length" by simp
qed

declare collapse.simps [simp del]

definition toMekanismiURI :: "string \<Rightarrow> string" where
  "toMekanismiURI s =
     (let r = collapse (map (\<lambda>c. if allowed c then c else CHR ''-'') s)
      in if endsWith r CHR ''-'' then butlast r else r)"

definition pathSegmentToFilename :: "string \<Rightarrow> string" where
  "pathSegmentToFilename pathSegment =
     (let sanitizedPath = toMekanismiURI pathSegment
      in if length sanitizedPath = 0 \<or> sanitizedPath = ''-'' then ''index''
         else
           let s1 = (if startsWith sanitizedPath CHR ''-'' then tl sanitizedPath
                     else sanitizedPath);
               s2 = (if endsWith s1 CHR ''-'' then butlast s1 else s1)
           in s2)"

section \<open>URL Normalizer of \<^verbatim>\<open>webCrawler.ts\<close>\<close>

text \<open>\<^verbatim>\<open>pathSegment.replace(/(^-+|-+$)/g, '')\<close>: the run of dashes at the start and the run
  of dashes at the end are removed.\<close>

definition strip_dash_runs :: "string \<Rightarrow> string" where
  "strip_dash_runs s =
     rev (dropWhile (\<lambda>c. c = CHR ''-'') (rev (dropWhile (\<lambda>c. c = CHR ''-'') s)))"

text \<open>\<^verbatim>\<open>.replace(/-+/g, '-')\<close>: every run of dashes becomes one dash.\<close>

fun collapse_runs :: "string \<Rightarrow> string" where
  "collapse_runs (a # b # cs) =
     (if a = CHR ''-'' \<and> b = CHR ''-'' then collapse_runs (b # cs)
      else a # collapse_runs (b # cs))"
| "collapse_runs cs = cs"

text \<open>The class \<^verbatim>\<open>[a-zA-Z]\<close>.\<close>

definition alphabetical :: "char \<Rightarrow> bool" where
  "alphabetical c =
     (let n = (of_char c :: nat) in (97 \<le> n \<and> n \<le> 122) \<or> (65 \<le> n \<and> n \<le> 90))"

definition pathSegmentToFilename_wc :: "string \<Rightarrow> string" where
  "pathSegmentToFilename_wc pathSegment =
     (let cleanedPath = collapse_runs (strip_dash_runs pathSegment);
          sanitizedPath = map (\<lambda>c. if alphabetical c then c else CHR ''-'') cleanedPath
      in if length sanitizedPath = 0 then ''index''
         else
           let s1 = (if startsWith sanitizedPath CHR ''-'' then tl sanitizedPath
                     else sanitizedPath);
               s2 = (if endsWith s1 CHR ''-'' then butlast s1 else s1)
           in s2)"

section \<open>Documents, paths and the platform\<close>

text \<open>
  A fetched page is the parsed document in document order. Only image and anchor elements
  are read by the crawler: an image with its \<^verbatim>\<open>src\<close> and \<^verbatim>\<open>class\<close> attributes, an anchor
  with its \<^verbatim>\<open>href\<close>; an absent attribute is \<open>None\<close>. Elements are taken without their
  children. The caption paragraph that \<^verbatim>\<open>part_000\<close> adds after an image with classes
  is not part of the model.
\<close>

datatype node = Img "string option" "string option" | Anchor "string option" | Other string

type_synonym document = "node list"

text \<open>What a file holds: \<open>Markdown r d\<close> is the text \<^verbatim>\<open>elementToMDX\<close> (in
  \<^verbatim>\<open>webCrawler.ts\<close>, \<^verbatim>\<open>turndownService.turndown\<close>) returns for the serialisation of
  document \<open>d\<close> scoped to root element \<open>r\<close> (\<open>None\<close>: the whole document);
  \<open>Html d\<close> is the serialisation \<^verbatim>\<open>$.html()\<close> of \<open>d\<close>; \<open>ImageBytes u\<close> is the
  body served for image URL \<open>u\<close>.\<close>

datatype content = Markdown "string option" document | Html document | ImageBytes string

datatype message =
    InvalidURL string
  | Ignoring string
  | FailedPage string
  | FailedImage string
  | FailedCrawl string
  | SavedPage string string
  | SavedImage string string

text \<open>The observable actions of a run, in the order they happen: the request of
  \<^verbatim>\<open>downloadAndSavePage\<close> (URL, file), the request of \<^verbatim>\<open>crawl\<close> for link discovery, the
  request of \<^verbatim>\<open>downloadImage\<close> (URL, file), \<^verbatim>\<open>fs.writeFile\<close>, the image stream written
  to its file, the console, and the \<^verbatim>\<open>error\<close> event of the response stream of a URL,
  which no handler catches.\<close>

datatype effect =
    GetPage string string
  | GetLinks string
  | GetImage string string
  | WriteFile string content
  | WriteImage string
  | Log message
  | Uncaught string

text \<open>\<^verbatim>\<open>s.includes(pat)\<close>\<close>

fun includes_str :: "string \<Rightarrow> string \<Rightarrow> bool" where
  "includes_str [] pat = (pat = [])"
| "includes_str (c # cs) pat = (prefix pat (c # cs) \<or> includes_str cs pat)"

text \<open>\<^verbatim>\<open>path.join\<close>, \<^verbatim>\<open>path.basename\<close> and \<^verbatim>\<open>path.dirname\<close> on POSIX paths; the join is
  the plain one, for segments that need no normalisation.\<close>

definition path_join :: "string \<Rightarrow> string \<Rightarrow> string" where
  "path_join a b = a @ ''/'' @ b"

definition path_basename :: "string \<Rightarrow> string" where
  "path_basename p =
     rev (takeWhile (\<lambda>c. c \<noteq> CHR ''/'') (dropWhile (\<lambda>c. c = CHR ''/'') (rev p)))"

definition path_dirname :: "string \<Rightarrow> string" where
  "path_dirname p =
     (let hasRoot = startsWith p CHR ''/'';
          r = dropWhile (\<lambda>c. c \<noteq> CHR ''/'') (dropWhile (\<lambda>c. c = CHR ''/'') (rev p))
      in if p = [] then ''.''
         else if length r \<le> 1 then (if hasRoot then ''/'' else ''.'')
         else if hasRoot \<and> length r = 2 then ''//''
         else rev (tl r))"

text \<open>\<^verbatim>\<open>new RegExp(`^https?://(www\\.)?${domain}`)\<close> matched against a link. The domain is
  interpolated into the pattern, so a dot of the domain matches any character but a line
  terminator; the other characters of a host name stand for themselves.\<close>

fun match_pattern :: "string \<Rightarrow> string \<Rightarrow> bool" where
  "match_pattern [] s = True"
| "match_pattern (p # ps) [] = False"
| "match_pattern (p # ps) (c # cs) =
     ((if p = CHR ''.'' then c \<noteq> CHR 0x0A \<and> c \<noteq> CHR 0x0D else c = p) \<and> match_pattern ps cs)"

definition match_domainRegex :: "string \<Rightarrow> string \<Rightarrow> bool" where
  "match_domainRegex d link =
     (let rest = (if prefix ''https://'' link then Some (drop 8 link)
                  else if prefix ''http://'' link then Some (drop 7 link)
                  else None)
      in case rest of
           None \<Rightarrow> False
         | Some r \<Rightarrow> (prefix ''www.'' r \<and> match_pattern d (drop 4 r)) \<or> match_pattern d r)"

text \<open>The configuration of a run: the \<^verbatim>\<open>domain\<close> and \<^verbatim>\<open>root\<close> options, and two
  functions of the platform. \<open>pathname u\<close> is \<^verbatim>\<open>new URL(u).pathname\<close>, or \<open>None\<close> where
  the constructor throws. \<open>outer_replace n old new\<close> is how the source rewrites an
  element \<open>n\<close>: it takes the serialisation \<^verbatim>\<open>$(element).prop('outerHTML')\<close>, replaces
  the first occurrence of the text \<open>old\<close> in it with \<^verbatim>\<open>String.prototype.replace\<close>, and
  puts the elements parsed from the result in the place of \<open>n\<close> with
  \<^verbatim>\<open>replaceWith\<close>. The result is the element with the attribute replaced only when the
  text is found there: an attribute that holds an ampersand is serialised with
  \<^verbatim>\<open>&amp;\<close>, the text is not found and the element stays as it is.\<close>

record env =
  domain :: string
  root :: "string option"
  pathname :: "string \<Rightarrow> string option"
  outer_replace :: "node \<Rightarrow> string \<Rightarrow> string \<Rightarrow> document"

text \<open>A parser for the examples: scheme \<^verbatim>\<open>http\<close> or \<^verbatim>\<open>https\<close>, a non-empty host with
  neither credentials nor port, and a path that needs neither escaping nor the removal of
  dot segments.\<close>

definition example_pathname :: "string \<Rightarrow> string option" where
  "example_pathname u =
     (let rest = (if prefix ''https://'' u then Some (drop 8 u)
                  else if prefix ''http://'' u then Some (drop 7 u)
                  else None)
      in case rest of
           None \<Rightarrow> None
         | Some r \<Rightarrow>
             let sep = (\<lambda>c. c = CHR ''/'' \<or> c = CHR ''?'' \<or> c = CHR ''#'');
                 host = takeWhile (\<lambda>c. \<not> sep c) r;
                 path = takeWhile (\<lambda>c. c \<noteq> CHR ''?'' \<and> c \<noteq> CHR ''#'')
                          (dropWhile (\<lambda>c. \<not> sep c) r)
             in if host = [] \<or> CHR '':'' \<in> set host \<or> CHR ''@'' \<in> set host then None
                else if startsWith path CHR ''/'' then Some path
                else Some ''/'')"

text \<open>The replacement for the examples, on elements that have the attributes of the
  model only: the text is found at the attribute when it is the attribute, holds a slash
  (so that it does not occur in the name of the element or of the attribute) and none of
  the characters that the serialisation escapes, and when the new text has no dollar sign
  (which the replacement would expand); otherwise the element is left as it is.\<close>

definition plain_text :: "string \<Rightarrow> bool" where
  "plain_text t =
     (CHR ''/'' \<in> set t \<and> CHR ''&'' \<notin> set t \<and> CHR ''<'' \<notin> set t \<and> CHR ''>'' \<notin> set t \<and>
      CHR 0x22 \<notin> set t)"

fun example_replace :: "node \<Rightarrow> string \<Rightarrow> string \<Rightarrow> document" where
  "example_replace (Img (Some imgSrc) cls) old new =
     (if imgSrc = old \<and> plain_text old \<and> CHR ''$'' \<notin> set new
      then [Img (Some new) cls] else [Img (Some imgSrc) cls])"
| "example_replace (Anchor (Some link)) old new =
     (if link = old \<and> plain_text old \<and> CHR ''$'' \<notin> set new
      then [Anchor (Some new)] else [Anchor (Some link)])"
| "example_replace n old new = [n]"

definition example_env :: env where
  "example_env =
     \<lparr>domain = ''example.com'', root = None, pathname = example_pathname,
      outer_replace = example_replace\<rparr>"

section \<open>State of a run\<close>

text \<open>
  The runtime is single-threaded: a function runs without interruption up to its next
  \<^verbatim>\<open>await\<close> (or to the registration of an event handler) and is resumed later, when the
  awaited operation has completed, in an order the program does not control. A suspended
  function is a task; the state holds the two module-level sets (in insertion order), the
  files on disk, the actions so far and the suspended tasks.

  The tasks: \<open>AwaitPage url file\<close> is \<^verbatim>\<open>downloadAndSavePage\<close> at its request, with
  \<^verbatim>\<open>crawl\<close> waiting for it; \<open>AwaitEnd url file d\<close> is the \<^verbatim>\<open>end\<close> handler of the
  response stream, whose body is the document \<open>d\<close>; \<open>AwaitLinks url\<close> is \<^verbatim>\<open>crawl\<close>
  at its own request of the page; \<open>AwaitImage url file done src cls rest\<close> is the
  handler of \<^verbatim>\<open>part_000\<close> at \<^verbatim>\<open>await downloadImage\<close> for the image with source
  \<open>src\<close> and class \<open>cls\<close>, between the elements \<open>done\<close> and \<open>rest\<close>;
  \<open>AwaitWrite_wc url file d\<close> is the handler of \<^verbatim>\<open>webCrawler.ts\<close> at its first
  \<^verbatim>\<open>await fs.writeFile\<close>; \<open>AwaitImage_wc src file\<close> is a callback of its
  \<^verbatim>\<open>$('img').each\<close> at \<^verbatim>\<open>await downloadImage\<close>.

  A request either fails, which the source catches, or is answered: then the body
  arrives in full, or the response stream breaks off and emits \<^verbatim>\<open>error\<close>. A write to a
  file succeeds: the source has no handler for a write that fails, and the model has no
  such event.
\<close>

datatype task =
    AwaitPage string string
  | AwaitEnd string string document
  | AwaitLinks string
  | AwaitImage string string document string "string option" document
  | AwaitWrite_wc string string document
  | AwaitImage_wc string string

record state =
  visitedPages :: "string list"
  imageDownloads :: "string list"
  files :: "string \<rightharpoonup> content"
  trace :: "effect list"
  pending :: "task list"

definition init :: state where
  "init = \<lparr>visitedPages = [], imageDownloads = [], files = Map.empty, trace = [], pending = []\<rparr>"

text \<open>\<^verbatim>\<open>Set.prototype.add\<close>\<close>

definition add :: "string \<Rightarrow> string list \<Rightarrow> string list" where
  "add x xs = (if x \<in> set xs then xs else xs @ [x])"

definition emit :: "effect list \<Rightarrow> state \<Rightarrow> state" where
  "emit es s = s\<lparr>trace := trace s @ es\<rparr>"

definition suspend :: "task \<Rightarrow> state \<Rightarrow> state" where
  "suspend t s = s\<lparr>pending := pending s @ [t]\<rparr>"

definition truthy :: "string option \<Rightarrow> bool" where
  "truthy a = (case a of None \<Rightarrow> False | Some v \<Rightarrow> v \<noteq> [])"

section \<open>The crawler of \<^verbatim>\<open>part_000\<close>\<close>

definition maxPages :: nat where
  "maxPages = 1000000"

definition ignorePatterns :: "string list" where
  "ignorePatterns =
     [''Admin'', ''MyPages'', ''PassWord'', ''MyChanges'', ''SandBox'', ''Search'',
      ''-revisions'', ''-showcode'', ''-raw'', ''Spam'', ''MySQL'', ''-edit'', ''-history'',
      ''-backlinks'']"

text \<open>\<^verbatim>\<open>extractLocalPathFromUrl\<close> catches the parser's exception, logs and returns null.\<close>

definition extractLocalPathFromUrl :: "env \<Rightarrow> string \<Rightarrow> string option \<times> effect list" where
  "extractLocalPathFromUrl e url =
     (case pathname e url of
        Some p \<Rightarrow> (Some p, [])
      | None \<Rightarrow> (None, [Log (InvalidURL url)]))"

definition folderName :: "env \<Rightarrow> string" where
  "folderName e = path_join ''results'' (domain e)"

text \<open>The file name \<^verbatim>\<open>crawl\<close> computes for a URL:
  \<^verbatim>\<open>pathSegmentToFilename(pagePath || '') + '.md'\<close>.\<close>

definition pageFileName :: "env \<Rightarrow> string \<Rightarrow> string" where
  "pageFileName e url =
     pathSegmentToFilename
       (case fst (extractLocalPathFromUrl e url) of None \<Rightarrow> [] | Some p \<Rightarrow> p) @ ''.md''"

text \<open>\<^verbatim>\<open>crawl\<close> up to its first suspension, which is the request inside
  \<^verbatim>\<open>downloadAndSavePage\<close>.\<close>

definition crawl :: "env \<Rightarrow> string \<Rightarrow> string \<Rightarrow> state \<Rightarrow> state" where
  "crawl e url baseFolder s =
     (if maxPages \<le> length (visitedPages s) then s
      else
        let s1 = emit (snd (extractLocalPathFromUrl e url)) s
        in if pageFileName e url \<in> set (visitedPages s1) then s1
           else
             let s2 = s1\<lparr>visitedPages := add (pageFileName e url) (visitedPages s1)\<rparr>
             in if \<exists>pattern \<in> set ignorePatterns. includes_str (pageFileName e url) pattern
                then emit [Log (Ignoring url)] s2
                else
                  let fileName = path_join baseFolder (pageFileName e url)
                  in suspend (AwaitPage url fileName) (emit [GetPage url fileName] s2))"

definition elementToMDX :: "document \<Rightarrow> string option \<Rightarrow> content" where
  "elementToMDX d rootElement =
     Markdown (Some (case rootElement of None \<Rightarrow> ''body'' | Some r \<Rightarrow> r)) d"

text \<open>One turn of the loop over the anchors in the \<^verbatim>\<open>end\<close> handler: the elements
  that take the place of the anchor, and what is logged.\<close>

fun rewrite_link :: "env \<Rightarrow> node \<Rightarrow> document \<times> effect list" where
  "rewrite_link e (Anchor (Some link)) =
     (if link \<noteq> [] \<and> includes_str link (domain e) then
        (case extractLocalPathFromUrl e link of
           (Some linkPath, logs) \<Rightarrow>
             if linkPath \<noteq> []
             then (outer_replace e (Anchor (Some link)) link
                     (pathSegmentToFilename linkPath @ ''.md''), logs)
             else ([Anchor (Some link)], logs)
         | (None, logs) \<Rightarrow> ([Anchor (Some link)], logs))
      else ([Anchor (Some link)], []))"
| "rewrite_link e n = ([n], [])"

definition rewrite_links :: "env \<Rightarrow> document \<Rightarrow> document" where
  "rewrite_links e d = concat (map (\<lambda>n. fst (rewrite_link e n)) d)"

text \<open>The end of the handler: the loop over the anchors, the conversion and the write.\<close>

definition save_page :: "env \<Rightarrow> string \<Rightarrow> string \<Rightarrow> document \<Rightarrow> state \<Rightarrow> state" where
  "save_page e url filename d s =
     (let logs = concat (map (\<lambda>n. snd (rewrite_link e n)) d);
          markdownContent = elementToMDX (rewrite_links e d) (root e);
          s1 = emit (logs @ [Log (SavedPage url filename), WriteFile filename markdownContent]) s
      in s1\<lparr>files := (files s1)(filename \<mapsto> markdownContent)\<rparr>)"

text \<open>The loop over the images in the \<^verbatim>\<open>end\<close> handler: \<open>done\<close> holds the elements
  already passed, as the loop has left them; the loop suspends at
  \<^verbatim>\<open>await downloadImage\<close>.\<close>

fun images_loop ::
  "env \<Rightarrow> string \<Rightarrow> string \<Rightarrow> document \<Rightarrow> document \<Rightarrow> state \<Rightarrow> state" where
  "images_loop e url filename done [] s = save_page e url filename done s"
| "images_loop e url filename done (Img (Some imgSrc) cls # rest) s =
     (if imgSrc = [] then images_loop e url filename (done @ [Img (Some imgSrc) cls]) rest s
      else if imgSrc \<in> set (imageDownloads s)
      then images_loop e url filename
             (done @ outer_replace e (Img (Some imgSrc) cls) imgSrc (path_basename imgSrc))
             rest s
      else suspend (AwaitImage url filename done imgSrc cls rest)
             (emit [GetImage imgSrc (path_join (path_dirname filename) (path_basename imgSrc))]
                s))"
| "images_loop e url filename done (n # rest) s =
     images_loop e url filename (done @ [n]) rest s"

text \<open>The callback of \<^verbatim>\<open>$('a').each\<close> in \<^verbatim>\<open>crawl\<close>: it is not awaited, so each
  recursive call runs up to its own first suspension before the next anchor is visited.\<close>

fun discover :: "env \<Rightarrow> node \<Rightarrow> state \<Rightarrow> state" where
  "discover e (Anchor (Some link)) s =
     (if link \<noteq> [] \<and> match_domainRegex (domain e) link
      then crawl e (if prefix ''http'' link then link else ''https://'' @ link) (folderName e) s
      else s)"
| "discover e n s = s"

text \<open>\<^verbatim>\<open>downloadImage\<close> as one suspension: the request and the piping of the body into
  the file both succeed, or the failure of the request or of the file is caught and
  logged.\<close>

definition downloadImage_done :: "string \<Rightarrow> string \<Rightarrow> bool \<Rightarrow> state \<Rightarrow> state" where
  "downloadImage_done url filename ok s =
     (if ok
      then (emit [WriteImage filename, Log (SavedImage url filename)] s)
             \<lparr>files := (files s)(filename \<mapsto> ImageBytes url)\<rparr>
      else emit [Log (FailedImage url)] s)"

text \<open>Resuming a task with the result of the operation it awaits: \<open>None\<close> is a failed
  request, \<open>Some d\<close> a response with body \<open>d\<close>. For the \<^verbatim>\<open>end\<close> handler the event
  is \<^verbatim>\<open>end\<close>, which carries no value: the body has arrived in full. The other end of
  a response stream is \<open>stream_error\<close> below.\<close>

fun resume :: "env \<Rightarrow> task \<Rightarrow> document option \<Rightarrow> state \<Rightarrow> state" where
  "resume e (AwaitPage url fileName) None s =
     suspend (AwaitLinks url) (emit [Log (FailedPage url), GetLinks url] s)"
| "resume e (AwaitPage url fileName) (Some d) s =
     suspend (AwaitLinks url) (emit [GetLinks url] (suspend (AwaitEnd url fileName d) s))"
| "resume e (AwaitEnd url fileName d) r s = images_loop e url fileName [] d s"
| "resume e (AwaitLinks url) None s = emit [Log (FailedCrawl url)] s"
| "resume e (AwaitLinks url) (Some d) s = fold (discover e) d s"
| "resume e (AwaitImage url fileName done imgSrc cls rest) r s =
     (let localImgPath = path_join (path_dirname fileName) (path_basename imgSrc);
          s1 = downloadImage_done imgSrc localImgPath (r \<noteq> None) s;
          s2 = s1\<lparr>imageDownloads := add imgSrc (imageDownloads s1)\<rparr>
      in images_loop e url fileName
           (done @ outer_replace e (Img (Some imgSrc) cls) imgSrc (path_basename imgSrc))
           rest s2)"
| "resume e t r s = s"

definition step :: "env \<Rightarrow> nat \<times> document option \<Rightarrow> state \<Rightarrow> state" where
  "step e ev s =
     (let i = fst ev
      in if i < length (pending s)
         then resume e (pending s ! i) (snd ev)
                (s\<lparr>pending := take i (pending s) @ drop (Suc i) (pending s)\<rparr>)
         else s)"

definition run :: "env \<Rightarrow> (nat \<times> document option) list \<Rightarrow> state \<Rightarrow> state" where
  "run e evs s = fold (step e) evs s"

definition main :: "env \<Rightarrow> state" where
  "main e = crawl e (''https://'' @ domain e) (folderName e) init"

text \<open>A response stream that breaks off after the headers emits \<^verbatim>\<open>error\<close>. Neither
  \<^verbatim>\<open>downloadAndSavePage\<close>, which listens to \<^verbatim>\<open>data\<close> and \<^verbatim>\<open>end\<close>, nor
  \<^verbatim>\<open>downloadImage\<close>, which pipes the stream into the file and listens to the file only,
  has a listener for it, and the \<^verbatim>\<open>try\<close> blocks have been left by then: the event is an
  uncaught exception, the process ends and every suspended task is lost. The tasks that
  hold a response stream are the \<^verbatim>\<open>end\<close> handler and the two tasks at
  \<^verbatim>\<open>await downloadImage\<close>; the request of \<^verbatim>\<open>crawl\<close> for the links is not streamed.\<close>

fun stream_of :: "task \<Rightarrow> string option" where
  "stream_of (AwaitEnd url fileName d) = Some url"
| "stream_of (AwaitImage url fileName done imgSrc cls rest) = Some imgSrc"
| "stream_of (AwaitImage_wc imgSrc localImgPath) = Some imgSrc"
| "stream_of t = None"

definition crash :: "string \<Rightarrow> state \<Rightarrow> state" where
  "crash url s = (emit [Uncaught url] s)\<lparr>pending := []\<rparr>"

definition stream_error :: "nat \<Rightarrow> state \<Rightarrow> state" where
  "stream_error i s =
     (if i < length (pending s)
      then (case stream_of (pending s ! i) of Some url \<Rightarrow> crash url s | None \<Rightarrow> s)
      else s)"

text \<open>The events of a run in general: a task is resumed, or the response stream of a
  task breaks off. \<open>run\<close> is \<open>exec\<close> on the runs in which no stream breaks off.\<close>

datatype event = Resume nat "document option" | StreamError nat

fun step_event :: "env \<Rightarrow> event \<Rightarrow> state \<Rightarrow> state" where
  "step_event e (Resume i r) s = step e (i, r) s"
| "step_event e (StreamError i) s = stream_error i s"

definition exec :: "env \<Rightarrow> event list \<Rightarrow> state \<Rightarrow> state" where
  "exec e evs s = fold (step_event e) evs s"

section \<open>The crawler of \<^verbatim>\<open>webCrawler.ts\<close>\<close>

text \<open>\<^verbatim>\<open>pathSegmentToFilename(pagePath || '') + '.mdx'\<close>\<close>

definition pageFileName_wc :: "env \<Rightarrow> string \<Rightarrow> string" where
  "pageFileName_wc e url =
     pathSegmentToFilename_wc
       (case fst (extractLocalPathFromUrl e url) of None \<Rightarrow> [] | Some p \<Rightarrow> p) @ ''.mdx''"

definition crawl_wc :: "env \<Rightarrow> string \<Rightarrow> string \<Rightarrow> state \<Rightarrow> state" where
  "crawl_wc e url baseFolder s =
     (let s1 = emit (snd (extractLocalPathFromUrl e url)) s
      in if pageFileName_wc e url \<in> set (visitedPages s1) then s1
         else
           let s2 = s1\<lparr>visitedPages := add (pageFileName_wc e url) (visitedPages s1)\<rparr>;
               fileName = path_join baseFolder (pageFileName_wc e url)
           in suspend (AwaitPage url fileName) (emit [GetPage url fileName] s2))"

fun discover_wc :: "env \<Rightarrow> node \<Rightarrow> state \<Rightarrow> state" where
  "discover_wc e (Anchor (Some link)) s =
     (if link \<noteq> [] \<and> match_domainRegex (domain e) link
      then crawl_wc e (if prefix ''http'' link then link else ''https://'' @ link)
             (folderName e) s
      else s)"
| "discover_wc e n s = s"

text \<open>The callback of \<^verbatim>\<open>$('img').each\<close>, which is not awaited: for an image not yet in
  \<^verbatim>\<open>imageDownloads\<close> it runs up to the request of \<^verbatim>\<open>downloadImage\<close> and is suspended;
  for an image already there it rewrites the element at once.\<close>

fun img_callback_wc :: "string \<Rightarrow> node \<Rightarrow> state \<Rightarrow> state" where
  "img_callback_wc filename (Img (Some imgSrc) cls) s =
     (if imgSrc \<noteq> [] \<and> imgSrc \<notin> set (imageDownloads s)
      then
        let localImgPath = path_join (path_dirname filename) (path_basename imgSrc)
        in suspend (AwaitImage_wc imgSrc localImgPath) (emit [GetImage imgSrc localImgPath] s)
      else s)"
| "img_callback_wc filename n s = s"

text \<open>What the callbacks that are not suspended do to the document: the callback for the
  image at position \<open>k\<close> among the images, when the image is in \<^verbatim>\<open>imageDownloads\<close>,
  replaces \<^verbatim>\<open>$('img').eq(k)\<close>, the image at position \<open>k\<close> of the document as it is by
  then.\<close>

fun replace_kth_img :: "nat \<Rightarrow> document \<Rightarrow> document \<Rightarrow> document" where
  "replace_kth_img k new [] = []"
| "replace_kth_img k new (Img a c # ns) =
     (case k of 0 \<Rightarrow> new @ ns | Suc j \<Rightarrow> Img a c # replace_kth_img j new ns)"
| "replace_kth_img k new (n # ns) = n # replace_kth_img k new ns"

fun is_img :: "node \<Rightarrow> bool" where
  "is_img (Img a c) = True"
| "is_img n = False"

fun img_rewrite_wc :: "env \<Rightarrow> string list \<Rightarrow> nat \<times> node \<Rightarrow> document \<Rightarrow> document" where
  "img_rewrite_wc e downloads (k, Img (Some imgSrc) cls) cur =
     (if imgSrc \<noteq> [] \<and> imgSrc \<in> set downloads
      then replace_kth_img k
             (outer_replace e (Img (Some imgSrc) cls) imgSrc (path_basename imgSrc)) cur
      else cur)"
| "img_rewrite_wc e downloads (k, n) cur = cur"

definition imgs_rewritten_wc :: "env \<Rightarrow> string list \<Rightarrow> document \<Rightarrow> document" where
  "imgs_rewritten_wc e downloads d =
     fold (img_rewrite_wc e downloads) (enumerate 0 (filter is_img d)) d"

text \<open>The \<^verbatim>\<open>end\<close> handler writes the converted page, awaits the write, runs the image
  callbacks and writes \<^verbatim>\<open>$.html()\<close>, the document as the callbacks that were not suspended
  have left it, to the same file.\<close>

fun resume_wc :: "env \<Rightarrow> task \<Rightarrow> document option \<Rightarrow> state \<Rightarrow> state" where
  "resume_wc e (AwaitPage url fileName) None s =
     suspend (AwaitLinks url) (emit [Log (FailedPage url), GetLinks url] s)"
| "resume_wc e (AwaitPage url fileName) (Some d) s =
     suspend (AwaitLinks url) (emit [GetLinks url] (suspend (AwaitEnd url fileName d) s))"
| "resume_wc e (AwaitEnd url fileName d) r s =
     (let markdownContent = Markdown None d;
          s1 = emit [WriteFile fileName markdownContent] s
      in suspend (AwaitWrite_wc url fileName d)
           (s1\<lparr>files := (files s1)(fileName \<mapsto> markdownContent)\<rparr>))"
| "resume_wc e (AwaitWrite_wc url fileName d) r s =
     (let s1 = emit [Log (SavedPage url fileName)] s;
          s2 = fold (img_callback_wc fileName) d s1;
          html = Html (imgs_rewritten_wc e (imageDownloads s1) d);
          s3 = emit [WriteFile fileName html] s2
      in s3\<lparr>files := (files s3)(fileName \<mapsto> html)\<rparr>)"
| "resume_wc e (AwaitLinks url) None s = emit [Log (FailedCrawl url)] s"
| "resume_wc e (AwaitLinks url) (Some d) s = fold (discover_wc e) d s"
| "resume_wc e (AwaitImage_wc imgSrc localImgPath) r s =
     (let s1 = downloadImage_done imgSrc localImgPath (r \<noteq> None) s
      in s1\<lparr>imageDownloads := add imgSrc (imageDownloads s1)\<rparr>)"
| "resume_wc e t r s = s"

definition step_wc :: "env \<Rightarrow> nat \<times> document option \<Rightarrow> state \<Rightarrow> state" where
  "step_wc e ev s =
     (let i = fst ev
      in if i < length (pending s)
         then resume_wc e (pending s ! i) (snd ev)
                (s\<lparr>pending := take i (pending s) @ drop (Suc i) (pending s)\<rparr>)
         else s)"

definition run_wc :: "env \<Rightarrow> (nat \<times> document option) list \<Rightarrow> state \<Rightarrow> state" where
  "run_wc e evs s = fold (step_wc e) evs s"

definition main_wc :: "env \<Rightarrow> state" where
  "main_wc e = crawl_wc e (''https://'' @ domain e) (folderName e) init"

fun step_event_wc :: "env \<Rightarrow> event \<Rightarrow> state \<Rightarrow> state" where
  "step_event_wc e (Resume i r) s = step_wc e (i, r) s"
| "step_event_wc e (StreamError i) s = stream_error i s"

definition exec_wc :: "env \<Rightarrow> event list \<Rightarrow> state \<Rightarrow> state" where
  "exec_wc e evs s = fold (step_event_wc e) evs s"

section \<open>Observations of a state\<close>

text \<open>The files \<^verbatim>\<open>downloadAndSavePage\<close> has been called for, the files
  \<^verbatim>\<open>fs.writeFile\<close> has written, the image URLs requested, in the order of the trace;
  and the page files of the suspended tasks.\<close>

fun req_of :: "effect \<Rightarrow> string list" where
  "req_of (GetPage url f) = [f]"
| "req_of x = []"

definition requested :: "effect list \<Rightarrow> string list" where
  "requested es = concat (map req_of es)"

fun write_of :: "effect \<Rightarrow> string list" where
  "write_of (WriteFile f c) = [f]"
| "write_of x = []"

definition written :: "effect list \<Rightarrow> string list" where
  "written es = concat (map write_of es)"

fun image_of :: "effect \<Rightarrow> string list" where
  "image_of (GetImage url f) = [url]"
| "image_of x = []"

definition image_requests :: "effect list \<Rightarrow> string list" where
  "image_requests es = concat (map image_of es)"

fun page_of_task :: "task \<Rightarrow> string list" where
  "page_of_task (AwaitPage url f) = [f]"
| "page_of_task (AwaitEnd url f d) = [f]"
| "page_of_task (AwaitImage url f done imgSrc cls rest) = [f]"
| "page_of_task (AwaitWrite_wc url f d) = [f]"
| "page_of_task t = []"

definition in_flight :: "task list \<Rightarrow> string list" where
  "in_flight ts = concat (map page_of_task ts)"

text \<open>The calls of \<^verbatim>\<open>fs.writeFile\<close> in a trace, with what they write.\<close>

fun is_write :: "effect \<Rightarrow> bool" where
  "is_write (WriteFile f c) = True"
| "is_write x = False"

definition writes :: "effect list \<Rightarrow> effect list" where
  "writes es = filter is_write es"

section \<open>Invariants of a run\<close>

fun is_log :: "effect \<Rightarrow> bool" where
  "is_log (Log m) = True"
| "is_log x = False"

text \<open>The page files that are still to be written or have been written: every call of
  \<^verbatim>\<open>downloadAndSavePage\<close> hands its file from task to task until the file is written or
  the request fails.\<close>

definition tokens :: "state \<Rightarrow> string multiset" where
  "tokens s = mset (in_flight (pending s)) + mset (written (trace s))"

text \<open>No file is requested twice, every requested file is the file of a visited name,
  and every file in flight or written has been requested; \<open>D\<close> holds requested files
  that are known to be neither in flight nor written.\<close>

definition page_inv :: "env \<Rightarrow> string multiset \<Rightarrow> state \<Rightarrow> bool" where
  "page_inv e D s =
     (distinct (requested (trace s)) \<and>
      set (requested (trace s)) \<subseteq> path_join (folderName e) ` set (visitedPages s) \<and>
      tokens s + D \<subseteq># mset (requested (trace s)))"

text \<open>A later state of a run: the two sets and the trace have grown at the end, and no
  file has disappeared.\<close>

definition extends :: "state \<Rightarrow> state \<Rightarrow> bool" where
  "extends s s' =
     (prefix (visitedPages s) (visitedPages s') \<and>
      prefix (imageDownloads s) (imageDownloads s') \<and>
      prefix (trace s) (trace s') \<and>
      dom (files s) \<subseteq> dom (files s'))"

text \<open>A call of \<^verbatim>\<open>crawl\<close> that neither requests nor suspends anything: at most the
  parser's complaint about the URL is logged.\<close>

definition quiet :: "string \<Rightarrow> state \<Rightarrow> state \<Rightarrow> bool" where
  "quiet url s s' = (s' = s \<or> s' = emit [Log (InvalidURL url)] s)"

definition req_inv :: "env \<Rightarrow> state \<Rightarrow> bool" where
  "req_inv e s =
     (distinct (requested (trace s)) \<and>
      set (requested (trace s)) \<subseteq> path_join (folderName e) ` set (visitedPages s))"

text \<open>A state at the page ceiling, for the examples: \<^verbatim>\<open>maxPages\<close> distinct names have
  been visited and one \<^verbatim>\<open>crawl\<close> is still waiting for the page it reads the links from.\<close>

definition full_visited :: "string list" where
  "full_visited = map (\<lambda>n. replicate (Suc n) CHR ''p'' @ ''.md'') [0..<maxPages]"

definition full_state :: state where
  "full_state =
     \<lparr>visitedPages = full_visited, imageDownloads = [], files = Map.empty, trace = [],
      pending = [AwaitLinks ''https://example.com/p'']\<rparr>"

text \<open>The document that the \<^verbatim>\<open>end\<close> handler of \<^verbatim>\<open>part_000\<close> makes of a body:
  one turn of the loop over the images leaves \<open>img_local\<close> in the place of an element
  (whether the image is downloaded by this turn or was before), and the loop over the
  anchors follows.\<close>

fun img_local :: "env \<Rightarrow> node \<Rightarrow> document" where
  "img_local e (Img (Some imgSrc) cls) =
     (if imgSrc = [] then [Img (Some imgSrc) cls]
      else outer_replace e (Img (Some imgSrc) cls) imgSrc (path_basename imgSrc))"
| "img_local e n = [n]"

definition localise :: "env \<Rightarrow> document \<Rightarrow> document" where
  "localise e d = rewrite_links e (concat (map (img_local e) d))"

text \<open>The document that a suspended handler will write when it comes to its end.\<close>

fun handler_doc :: "env \<Rightarrow> task \<Rightarrow> document option" where
  "handler_doc e (AwaitEnd url f d) = Some (localise e d)"
| "handler_doc e (AwaitImage url f done imgSrc cls rest) =
     Some (rewrite_links e
       (done @ outer_replace e (Img (Some imgSrc) cls) imgSrc (path_basename imgSrc) @
        concat (map (img_local e) rest)))"
| "handler_doc e t = None"

text \<open>The bodies that the network has delivered in a run.\<close>

fun body_of :: "nat \<times> document option \<Rightarrow> document list" where
  "body_of (i, Some d) = [d]"
| "body_of (i, None) = []"

definition bodies :: "(nat \<times> document option) list \<Rightarrow> document list" where
  "bodies evs = concat (map body_of evs)"

text \<open>Every file written holds the converted text of what the handler makes of a body
  delivered, and so will what the suspended handlers write.\<close>

fun effect_from :: "env \<Rightarrow> document list \<Rightarrow> effect \<Rightarrow> bool" where
  "effect_from e B (WriteFile f c) =
     list_ex (\<lambda>d. c = elementToMDX (localise e d) (root e)) B"
| "effect_from e B x = True"

definition task_from :: "env \<Rightarrow> document list \<Rightarrow> task \<Rightarrow> bool" where
  "task_from e B t =
     (case handler_doc e t of
        None \<Rightarrow> True
      | Some dd \<Rightarrow> list_ex (\<lambda>d. dd = localise e d) B)"

definition prov_inv :: "env \<Rightarrow> document list \<Rightarrow> state \<Rightarrow> bool" where
  "prov_inv e B s =
     (list_all (effect_from e B) (trace s) \<and> list_all (task_from e B) (pending s))"


definition rewritable :: "env \<Rightarrow> string \<Rightarrow> bool" where
  "rewritable e link =
     (link \<noteq> [] \<and> includes_str link (domain e) \<and> truthy (pathname e link))"


fun replaces :: "env \<Rightarrow> node \<Rightarrow> bool" where
  "replaces e (Img (Some imgSrc) cls) =
     (imgSrc = [] \<or>
      outer_replace e (Img (Some imgSrc) cls) imgSrc (path_basename imgSrc) =
        [Img (Some (path_basename imgSrc)) cls])"
| "replaces e (Anchor (Some link)) =
     (\<not> rewritable e link \<or>
      outer_replace e (Anchor (Some link)) link (pageFileName e link) =
        [Anchor (Some (pageFileName e link))])"
| "replaces e n = True"


text \<open>The URLs of the requests of \<^verbatim>\<open>downloadAndSavePage\<close> and of the requests of
  \<^verbatim>\<open>crawl\<close> for link discovery, and the URL a call of \<^verbatim>\<open>crawl\<close> is still to
  request for discovery: \<^verbatim>\<open>crawl\<close> makes its own request once, when
  \<^verbatim>\<open>downloadAndSavePage\<close> has returned.\<close>

fun page_url_of :: "effect \<Rightarrow> string list" where
  "page_url_of (GetPage url f) = [url]"
| "page_url_of x = []"

definition page_urls :: "effect list \<Rightarrow> string list" where
  "page_urls es = concat (map page_url_of es)"

fun discovery_of :: "effect \<Rightarrow> string list" where
  "discovery_of (GetLinks url) = [url]"
| "discovery_of x = []"

definition discoveries :: "effect list \<Rightarrow> string list" where
  "discoveries es = concat (map discovery_of es)"

fun url_of_task :: "task \<Rightarrow> string list" where
  "url_of_task (AwaitPage url f) = [url]"
| "url_of_task t = []"

definition to_discover :: "task list \<Rightarrow> string list" where
  "to_discover ts = concat (map url_of_task ts)"

definition disc_inv :: "state \<Rightarrow> bool" where
  "disc_inv s =
     (mset (discoveries (trace s)) + mset (to_discover (pending s)) =
      mset (page_urls (trace s)))"

text \<open>The page files still to be written or written by \<^verbatim>\<open>webCrawler.ts\<close>, whose handler
  writes the file of a page twice.\<close>

fun page_of_task_wc :: "task \<Rightarrow> string list" where
  "page_of_task_wc (AwaitPage url f) = [f, f]"
| "page_of_task_wc (AwaitEnd url f d) = [f, f]"
| "page_of_task_wc (AwaitWrite_wc url f d) = [f]"
| "page_of_task_wc t = []"

definition tokens_wc :: "state \<Rightarrow> string multiset" where
  "tokens_wc s = mset (concat (map page_of_task_wc (pending s))) + mset (written (trace s))"

definition page_inv_wc :: "env \<Rightarrow> string multiset \<Rightarrow> state \<Rightarrow> bool" where
  "page_inv_wc e D s =
     (req_inv e s \<and>
      tokens_wc s + D \<subseteq># mset (requested (trace s)) + mset (requested (trace s)))"

section \<open>Properties of the URL Normalizer of \<^verbatim>\<open>part_000\<close>\<close>

lemma collapse_no_dd: "\<not> includes_dd (collapse r)"
  by (induction r rule: collapse.induct) (simp add: collapse.simps)

lemma includes_dd_append_last:
  "includes_dd (r @ [c]) = (includes_dd r \<or> (endsWith r CHR ''-'' \<and> c = CHR ''-''))"
  by (induction r rule: includes_dd.induct) (auto simp: endsWith_def)

lemma butlast_no_dd: "\<not> includes_dd r \<Longrightarrow> \<not> includes_dd (butlast r)"
proof (cases r rule: rev_cases)
  case (snoc ys y)
  assume "\<not> includes_dd r"
  with snoc show ?thesis by (simp add: includes_dd_append_last)
qed simp

lemma butlast_not_endsWith:
  "\<not> includes_dd r \<Longrightarrow> endsWith r CHR ''-'' \<Longrightarrow> \<not> endsWith (butlast r) CHR ''-''"
proof (cases r rule: rev_cases)
  case (snoc ys y)
  assume "\<not> includes_dd r" "endsWith r CHR ''-''"
  with snoc show ?thesis by (auto simp: includes_dd_append_last endsWith_def)
qed (simp add: endsWith_def)

lemma tl_no_dd: "\<not> includes_dd r \<Longrightarrow> \<not> includes_dd (tl r)"
  by (cases r rule: includes_dd.cases) auto

lemma tl_not_startsWith:
  "\<not> includes_dd r \<Longrightarrow> startsWith r CHR ''-'' \<Longrightarrow> \<not> startsWith (tl r) CHR ''-''"
  by (cases r rule: includes_dd.cases) (auto simp: startsWith_def)

lemma endsWith_tl: "endsWith (tl r) c \<Longrightarrow> endsWith r c"
  by (cases r) (auto simp: endsWith_def)

lemma toMekanismiURI_no_dd: "\<not> includes_dd (toMekanismiURI s)"
  by (simp add: toMekanismiURI_def Let_def collapse_no_dd butlast_no_dd)

lemma toMekanismiURI_not_endsWith: "\<not> endsWith (toMekanismiURI s) CHR ''-''"
  by (simp add: toMekanismiURI_def Let_def collapse_no_dd butlast_not_endsWith)

lemma toMekanismiURI_not_dash: "toMekanismiURI s \<noteq> ''-''"
  using toMekanismiURI_not_endsWith [of s] by (auto simp: endsWith_def)

text \<open>The test \<^verbatim>\<open>sanitizedPath === '-'\<close> and the second \<^verbatim>\<open>endsWith\<close> of
  \<^verbatim>\<open>pathSegmentToFilename\<close> never fire, since \<^verbatim>\<open>toMekanismiURI\<close> has already removed
  a dash at the end.\<close>

lemma pathSegmentToFilename_cases:
  "pathSegmentToFilename p =
     (if toMekanismiURI p = [] then ''index''
      else if startsWith (toMekanismiURI p) CHR ''-'' then tl (toMekanismiURI p)
      else toMekanismiURI p)"
  using toMekanismiURI_not_endsWith [of p] toMekanismiURI_not_dash [of p]
    endsWith_tl [of "toMekanismiURI p" "CHR ''-''"]
  by (auto simp: pathSegmentToFilename_def Let_def)

lemma pathSegmentToFilename_nonempty: "pathSegmentToFilename p \<noteq> []"
proof -
  have "tl r \<noteq> []" if "r \<noteq> []" "startsWith r CHR ''-''" "\<not> endsWith r CHR ''-''" for r
    using that by (cases r) (auto simp: startsWith_def endsWith_def split: if_splits)
  then show ?thesis
    using toMekanismiURI_not_endsWith [of p]
    by (auto simp: pathSegmentToFilename_cases)
qed

lemma pathSegmentToFilename_no_dd: "\<not> includes_dd (pathSegmentToFilename p)"
  by (simp add: pathSegmentToFilename_cases toMekanismiURI_no_dd tl_no_dd)

lemma pathSegmentToFilename_not_startsWith: "\<not> startsWith (pathSegmentToFilename p) CHR ''-''"
  by (simp add: pathSegmentToFilename_cases toMekanismiURI_no_dd tl_not_startsWith)
     (simp add: startsWith_def)

lemma pathSegmentToFilename_not_endsWith: "\<not> endsWith (pathSegmentToFilename p) CHR ''-''"
  using toMekanismiURI_not_endsWith [of p] endsWith_tl [of "toMekanismiURI p" "CHR ''-''"]
  by (auto simp: pathSegmentToFilename_cases) (simp_all add: endsWith_def)

lemma set_split_join: "set (split_join r) \<subseteq> set r"
  by (induction r rule: split_join.induct) auto

lemma set_collapse: "set (collapse r) \<subseteq> set r"
proof (induction r rule: collapse.induct)
  case (1 r)
  then show ?case
    using set_split_join [of r] by (subst collapse.simps) auto
qed

lemma only_dashes_short:
  "\<not> includes_dd r \<Longrightarrow> set r \<subseteq> {CHR ''-''} \<Longrightarrow> r = [] \<or> r = ''-''"
  by (cases r rule: includes_dd.cases) auto

lemma toMekanismiURI_only_separators:
  assumes "\<forall>c \<in> set p. \<not> allowed c"
  shows "toMekanismiURI p = []"
proof -
  let ?m = "map (\<lambda>c. if allowed c then c else CHR ''-'') p"
  from assms have "set ?m \<subseteq> {CHR ''-''}" by auto
  with set_collapse [of ?m] have "set (collapse ?m) \<subseteq> {CHR ''-''}" by blast
  with collapse_no_dd [of ?m] have "collapse ?m = [] \<or> collapse ?m = ''-''"
    by (rule only_dashes_short)
  then show ?thesis
    by (auto simp: toMekanismiURI_def endsWith_def)
qed

text \<open>In \<^verbatim>\<open>part_000\<close> a path made of characters outside the allowed class only, the
  root path and the empty path of an unparsable URL among them, gives \<^verbatim>\<open>index\<close>.\<close>

lemma pathSegmentToFilename_only_separators:
  "\<forall>c \<in> set p. \<not> allowed c \<Longrightarrow> pathSegmentToFilename p = ''index''"
  by (simp add: pathSegmentToFilename_cases toMekanismiURI_only_separators)

lemma pathSegmentToFilename_root: "pathSegmentToFilename ''/'' = ''index''"
  by (rule pathSegmentToFilename_only_separators) (simp add: allowed_def)

lemma pathSegmentToFilename_empty: "pathSegmentToFilename [] = ''index''"
  by (rule pathSegmentToFilename_only_separators) simp

text \<open>In \<^verbatim>\<open>part_000\<close> the name is never empty, has no two dashes in a row and neither
  starts nor ends with a dash.\<close>

lemma pathSegmentToFilename_shape:
  "pathSegmentToFilename p \<noteq> [] \<and> \<not> includes_dd (pathSegmentToFilename p) \<and>
   \<not> startsWith (pathSegmentToFilename p) CHR ''-'' \<and>
   \<not> endsWith (pathSegmentToFilename p) CHR ''-''"
  by (simp add: pathSegmentToFilename_nonempty pathSegmentToFilename_no_dd
      pathSegmentToFilename_not_startsWith pathSegmentToFilename_not_endsWith)

section \<open>Frame lemmas\<close>

lemma emit_sel [simp]:
  "visitedPages (emit es s) = visitedPages s"
  "imageDownloads (emit es s) = imageDownloads s"
  "files (emit es s) = files s"
  "pending (emit es s) = pending s"
  "trace (emit es s) = trace s @ es"
  by (simp_all add: emit_def)

lemma suspend_sel [simp]:
  "visitedPages (suspend t s) = visitedPages s"
  "imageDownloads (suspend t s) = imageDownloads s"
  "files (suspend t s) = files s"
  "pending (suspend t s) = pending s @ [t]"
  "trace (suspend t s) = trace s"
  by (simp_all add: suspend_def)

lemma requested_simps [simp]:
  "requested [] = []"
  "requested (x # xs) = req_of x @ requested xs"
  "requested (xs @ ys) = requested xs @ requested ys"
  by (simp_all add: requested_def)

lemma written_simps [simp]:
  "written [] = []"
  "written (x # xs) = write_of x @ written xs"
  "written (xs @ ys) = written xs @ written ys"
  by (simp_all add: written_def)

lemma image_requests_simps [simp]:
  "image_requests [] = []"
  "image_requests (x # xs) = image_of x @ image_requests xs"
  "image_requests (xs @ ys) = image_requests xs @ image_requests ys"
  by (simp_all add: image_requests_def)

lemma in_flight_simps [simp]:
  "in_flight [] = []"
  "in_flight (t # ts) = page_of_task t @ in_flight ts"
  "in_flight (ts @ us) = in_flight ts @ in_flight us"
  by (simp_all add: in_flight_def)

lemma logs_unobserved:
  "list_all is_log es \<Longrightarrow> requested es = [] \<and> written es = [] \<and> image_requests es = []"
proof (induction es)
  case (Cons x xs)
  then show ?case by (cases x) auto
qed simp

lemma extract_logs [simp]: "list_all is_log (snd (extractLocalPathFromUrl e url))"
  by (simp add: extractLocalPathFromUrl_def split: option.splits)

lemma extract_unobserved [simp]:
  "requested (snd (extractLocalPathFromUrl e url)) = []"
  "written (snd (extractLocalPathFromUrl e url)) = []"
  "image_requests (snd (extractLocalPathFromUrl e url)) = []"
  using logs_unobserved [OF extract_logs [of e url]] by simp_all

lemma rewrite_link_logs [simp]: "list_all is_log (snd (rewrite_link e n))"
  by (cases "(e, n)" rule: rewrite_link.cases)
     (auto simp: extractLocalPathFromUrl_def split: option.splits)

lemma link_logs [simp]: "list_all is_log (concat (map (\<lambda>n. snd (rewrite_link e n)) d))"
  by (induction d) simp_all

lemma link_logs_unobserved [simp]:
  "requested (concat (map (\<lambda>n. snd (rewrite_link e n)) d)) = []"
  "written (concat (map (\<lambda>n. snd (rewrite_link e n)) d)) = []"
  "image_requests (concat (map (\<lambda>n. snd (rewrite_link e n)) d)) = []"
  using logs_unobserved [OF link_logs [of e d]] by simp_all

subsection \<open>\<^verbatim>\<open>crawl\<close>\<close>

lemma crawl_ceiling: "maxPages \<le> length (visitedPages s) \<Longrightarrow> crawl e url b s = s"
  by (simp add: crawl_def)

lemma crawl_visited:
  "pageFileName e url \<in> set (visitedPages s) \<Longrightarrow>
   crawl e url b s = s \<or> crawl e url b s = emit (snd (extractLocalPathFromUrl e url)) s"
  by (simp add: crawl_def)

lemma crawl_sel [simp]:
  "imageDownloads (crawl e url b s) = imageDownloads s"
  "files (crawl e url b s) = files s"
  by (simp_all add: crawl_def Let_def)

lemma crawl_visitedPages:
  "visitedPages (crawl e url b s) =
     (if maxPages \<le> length (visitedPages s) \<or> pageFileName e url \<in> set (visitedPages s)
      then visitedPages s else visitedPages s @ [pageFileName e url])"
  by (simp add: crawl_def Let_def add_def)

lemma crawl_written [simp]: "written (trace (crawl e url b s)) = written (trace s)"
  by (simp add: crawl_def Let_def)

lemma crawl_image_requests [simp]:
  "image_requests (trace (crawl e url b s)) = image_requests (trace s)"
  by (simp add: crawl_def Let_def)

lemma crawl_requested:
  "requested (trace (crawl e url b s)) =
     (if maxPages \<le> length (visitedPages s) \<or> pageFileName e url \<in> set (visitedPages s) \<or>
         (\<exists>pattern \<in> set ignorePatterns. includes_str (pageFileName e url) pattern)
      then requested (trace s)
      else requested (trace s) @ [path_join b (pageFileName e url)])"
  by (simp add: crawl_def Let_def)

lemma crawl_in_flight:
  "in_flight (pending (crawl e url b s)) =
     (if maxPages \<le> length (visitedPages s) \<or> pageFileName e url \<in> set (visitedPages s) \<or>
         (\<exists>pattern \<in> set ignorePatterns. includes_str (pageFileName e url) pattern)
      then in_flight (pending s)
      else in_flight (pending s) @ [path_join b (pageFileName e url)])"
  by (simp add: crawl_def Let_def)

lemma path_join_inj: "path_join b x = path_join b y \<Longrightarrow> x = y"
  by (simp add: path_join_def)

lemma crawl_page_inv:
  assumes "page_inv e D s"
  shows "page_inv e D (crawl e url (folderName e) s)"
proof -
  let ?f = "path_join (folderName e) (pageFileName e url)"
  have new: "?f \<notin> set (requested (trace s))" if "pageFileName e url \<notin> set (visitedPages s)"
  proof
    assume "?f \<in> set (requested (trace s))"
    with assms obtain n where "n \<in> set (visitedPages s)" "?f = path_join (folderName e) n"
      by (auto simp: page_inv_def)
    with that show False by (auto dest: path_join_inj)
  qed
  show ?thesis
    using assms new
    by (auto simp: page_inv_def tokens_def crawl_requested crawl_in_flight crawl_visitedPages
        ac_simps)
qed

subsection \<open>The \<^verbatim>\<open>end\<close> handler\<close>

lemma save_page_sel [simp]:
  "visitedPages (save_page e url f d s) = visitedPages s"
  "imageDownloads (save_page e url f d s) = imageDownloads s"
  "pending (save_page e url f d s) = pending s"
  "requested (trace (save_page e url f d s)) = requested (trace s)"
  "written (trace (save_page e url f d s)) = written (trace s) @ [f]"
  "image_requests (trace (save_page e url f d s)) = image_requests (trace s)"
  by (simp_all add: save_page_def Let_def)

lemma save_page_files:
  "files (save_page e url f d s) = (files s)(f \<mapsto> elementToMDX (rewrite_links e d) (root e))"
  by (simp add: save_page_def Let_def)

lemma images_loop_sel [simp]:
  "visitedPages (images_loop e url f done rest s) = visitedPages s"
  "imageDownloads (images_loop e url f done rest s) = imageDownloads s"
  "requested (trace (images_loop e url f done rest s)) = requested (trace s)"
  by (induction e url f "done" rest s rule: images_loop.induct) simp_all

lemma images_loop_tokens [simp]:
  "tokens (images_loop e url f done rest s) = tokens s + {#f#}"
  by (induction e url f "done" rest s rule: images_loop.induct) (simp_all add: tokens_def)

lemma downloadImage_done_sel [simp]:
  "visitedPages (downloadImage_done u p ok s) = visitedPages s"
  "imageDownloads (downloadImage_done u p ok s) = imageDownloads s"
  "pending (downloadImage_done u p ok s) = pending s"
  "requested (trace (downloadImage_done u p ok s)) = requested (trace s)"
  "written (trace (downloadImage_done u p ok s)) = written (trace s)"
  "image_requests (trace (downloadImage_done u p ok s)) = image_requests (trace s)"
  by (simp_all add: downloadImage_done_def)

lemma tokens_sel [simp]:
  "tokens (emit es s) = tokens s + mset (written es)"
  "tokens (suspend t s) = tokens s + mset (page_of_task t)"
  "tokens (s\<lparr>imageDownloads := x\<rparr>) = tokens s"
  "tokens (downloadImage_done u p ok s) = tokens s"
  by (simp_all add: tokens_def)

subsection \<open>Link discovery\<close>

lemma discover_page_inv: "page_inv e D s \<Longrightarrow> page_inv e D (discover e n s)"
  by (cases "(e, n, s)" rule: discover.cases) (simp_all add: crawl_page_inv)

lemma fold_discover_page_inv: "page_inv e D s \<Longrightarrow> page_inv e D (fold (discover e) d s)"
  by (induction d arbitrary: s) (simp_all add: discover_page_inv)

subsection \<open>Steps and runs\<close>

lemma in_flight_remove:
  "i < length ts \<Longrightarrow>
   mset (in_flight (take i ts @ drop (Suc i) ts)) + mset (page_of_task (ts ! i)) =
   mset (in_flight ts)"
proof -
  assume "i < length ts"
  then have "ts = take i ts @ ts ! i # drop (Suc i) ts"
    by (simp add: id_take_nth_drop)
  then have "in_flight ts = in_flight (take i ts @ ts ! i # drop (Suc i) ts)"
    by simp
  then show ?thesis
    by (simp del: append_take_drop_id)
qed

lemma tokens_remove:
  "i < length (pending s) \<Longrightarrow>
   tokens (s\<lparr>pending := take i (pending s) @ drop (Suc i) (pending s)\<rparr>) +
     mset (page_of_task (pending s ! i)) = tokens s"
  using in_flight_remove [of i "pending s"] by (simp add: tokens_def ac_simps)

lemma resume_page_inv:
  assumes "page_inv e D s0" and "tokens s + mset (page_of_task t) = tokens s0"
    and "visitedPages s = visitedPages s0" and "trace s = trace s0"
  shows "page_inv e D (resume e t r s)"
proof -
  from assms have "tokens s + mset (page_of_task t) + D \<subseteq># mset (requested (trace s))"
    by (simp add: page_inv_def)
  then have le: "tokens s + D + mset (page_of_task t) \<subseteq># mset (requested (trace s))"
    by (simp add: ac_simps)
  have "tokens s + D \<subseteq># tokens s + D + mset (page_of_task t)"
    by simp
  from this le have weaker: "tokens s + D \<subseteq># mset (requested (trace s))"
    by (rule subset_mset.order_trans)
  with assms have inv: "page_inv e D s"
    by (simp add: page_inv_def)
  show ?thesis
  proof (cases "(e, t, r, s)" rule: resume.cases)
    case (1 e' url f s')
    with inv show ?thesis by (simp add: page_inv_def)
  next
    case (2 e' url f d s')
    with inv le show ?thesis by (simp add: page_inv_def)
  next
    case (3 e' url f d r' s')
    with inv le show ?thesis by (simp add: page_inv_def)
  next
    case (4 e' url s')
    with inv show ?thesis by (simp add: page_inv_def)
  next
    case (5 e' url d s')
    with inv show ?thesis by (simp add: fold_discover_page_inv)
  next
    case (6 e' url f dn src cls rest r' s')
    with inv le show ?thesis by (simp add: page_inv_def Let_def)
  qed (use inv in simp_all)
qed

lemma step_page_inv: "page_inv e D s \<Longrightarrow> page_inv e D (step e ev s)"
  by (auto simp: step_def Let_def intro!: resume_page_inv tokens_remove)

lemma run_page_inv: "page_inv e D s \<Longrightarrow> page_inv e D (run e evs s)"
  unfolding run_def by (induction evs arbitrary: s) (simp_all add: step_page_inv)

lemma init_page_inv: "page_inv e {#} init"
  by (simp add: page_inv_def init_def tokens_def)

lemma main_page_inv: "page_inv e {#} (run e evs (main e))"
  unfolding main_def by (intro run_page_inv crawl_page_inv init_page_inv)

subsection \<open>A run only adds\<close>

lemma extends_refl [simp]: "extends s s"
  by (simp add: extends_def)

lemma extends_trans: "extends s t \<Longrightarrow> extends t u \<Longrightarrow> extends s u"
  by (auto simp: extends_def intro: prefix_order.order_trans)

lemma extends_basic [simp]:
  "extends s (emit es s)"
  "extends s (suspend t s)"
  "extends s (s\<lparr>pending := p\<rparr>)"
  "extends s (s\<lparr>imageDownloads := add x (imageDownloads s)\<rparr>)"
  "extends s (s\<lparr>files := (files s)(f \<mapsto> c)\<rparr>)"
  by (auto simp: extends_def add_def)

lemma extends_crawl [simp]: "extends s (crawl e url b s)"
  by (auto simp: extends_def crawl_def Let_def add_def)

lemma extends_save_page [simp]: "extends s (save_page e url f d s)"
  by (auto simp: extends_def save_page_def Let_def)

lemma extends_images_loop [simp]: "extends s (images_loop e url f done rest s)"
  by (induction e url f "done" rest s rule: images_loop.induct)
     (auto intro: extends_trans [OF extends_basic(1) extends_basic(2)])

lemma extends_downloadImage_done [simp]: "extends s (downloadImage_done u p ok s)"
  by (auto simp: extends_def downloadImage_done_def)

lemma extends_fold_discover [simp]: "extends s (fold (discover e) d s)"
proof (induction d arbitrary: s)
  case (Cons n d)
  have "extends s (discover e n s)"
    by (cases "(e, n, s)" rule: discover.cases) simp_all
  then show ?case
    using Cons [of "discover e n s"] by (auto intro: extends_trans)
qed simp

lemma extends_after:
  "extends s s1 \<Longrightarrow> extends s (emit es s1)"
  "extends s s1 \<Longrightarrow> extends s (suspend t s1)"
  "extends s s1 \<Longrightarrow> extends s (images_loop e url f dn rest s1)"
  "extends s s1 \<Longrightarrow> extends s (downloadImage_done u p ok s1)"
  "extends s s1 \<Longrightarrow> extends s (s1\<lparr>imageDownloads := add x (imageDownloads s1)\<rparr>)"
  "extends s s1 \<Longrightarrow> extends s (resume e t r s1) \<Longrightarrow> True"
  by (erule extends_trans, simp)+ simp

lemma extends_resume [simp]: "extends s (resume e t r s)"
proof (cases "(e, t, r, s)" rule: resume.cases)
  case (6 e' url f dn src cls rest r' s')
  then show ?thesis
    by (simp add: Let_def extends_after del: downloadImage_done_sel)
qed (simp_all add: extends_after)

lemma extends_step [simp]: "extends s (step e ev s)"
  by (simp add: step_def Let_def extends_trans [OF extends_basic(3) extends_resume])

lemma extends_run [simp]: "extends s (run e evs s)"
  unfolding run_def
proof (induction evs arbitrary: s)
  case (Cons ev evs)
  show ?case
    using Cons [of "step e ev s"] by (auto intro: extends_trans [OF extends_step])
qed simp

lemma run_append: "run e (evs @ evs') s = run e evs' (run e evs s)"
  by (simp add: run_def)

lemma extends_visited: "extends s s' \<Longrightarrow> x \<in> set (visitedPages s) \<Longrightarrow> x \<in> set (visitedPages s')"
  by (auto simp: extends_def dest: set_mono_prefix)

lemma extends_length: "extends s s' \<Longrightarrow> length (visitedPages s) \<le> length (visitedPages s')"
  by (auto simp: extends_def dest: prefix_length_le)

subsection \<open>What follows from the invariant\<close>

lemma distinct_count_le_1: "distinct xs = (\<forall>a. count (mset xs) a \<le> 1)"
proof (induction xs)
  case (Cons x xs)
  show ?case
  proof
    assume d: "distinct (x # xs)"
    then have "count (mset xs) x = 0" by (simp add: count_eq_zero_iff)
    with d Cons show "\<forall>a. count (mset (x # xs)) a \<le> 1" by simp
  next
    assume c: "\<forall>a. count (mset (x # xs)) a \<le> 1"
    then have "count (mset (x # xs)) x \<le> 1" by blast
    then have "x \<notin> set xs" by (simp add: count_eq_zero_iff [symmetric])
    moreover have "count (mset xs) a \<le> 1" for a
    proof -
      have "count (mset xs) a \<le> count (mset (x # xs)) a" by simp
      also from c have "\<dots> \<le> 1" by blast
      finally show ?thesis .
    qed
    ultimately show "distinct (x # xs)" using Cons by simp
  qed
qed simp

lemma distinct_sub_mset: "mset xs \<subseteq># mset ys \<Longrightarrow> distinct ys \<Longrightarrow> distinct xs"
  unfolding distinct_count_le_1
  by (meson mset_subset_eq_count order_trans)

lemma page_inv_distinct_written: "page_inv e D s \<Longrightarrow> distinct (written (trace s))"
proof -
  assume inv: "page_inv e D s"
  have "mset (written (trace s)) \<subseteq># tokens s + D"
    by (simp add: tokens_def)
  also from inv have "\<dots> \<subseteq># mset (requested (trace s))"
    by (simp add: page_inv_def)
  finally have "mset (written (trace s)) \<subseteq># mset (requested (trace s))" .
  moreover from inv have "distinct (requested (trace s))"
    by (simp add: page_inv_def)
  ultimately show ?thesis
    by (rule distinct_sub_mset)
qed

lemma page_inv_dead_not_written:
  assumes "page_inv e {#f#} s"
  shows "f \<notin> set (written (trace s))"
proof
  assume "f \<in> set (written (trace s))"
  then have "f \<in># tokens s" by (simp add: tokens_def)
  then have "2 \<le> count (tokens s + {#f#}) f" by simp
  moreover from assms have "count (tokens s + {#f#}) f \<le> count (mset (requested (trace s))) f"
    by (simp only: page_inv_def mset_subset_eq_count)
  moreover from assms have "count (mset (requested (trace s))) f \<le> 1"
    by (simp add: page_inv_def distinct_count_atmost_1)
  ultimately show False by linarith
qed

section \<open>Frame lemmas for \<^verbatim>\<open>webCrawler.ts\<close>\<close>

lemma crawl_wc_visited:
  "pageFileName_wc e url \<in> set (visitedPages s) \<Longrightarrow>
   crawl_wc e url b s = emit (snd (extractLocalPathFromUrl e url)) s"
  by (simp add: crawl_wc_def)

lemma crawl_wc_visitedPages:
  "visitedPages (crawl_wc e url b s) =
     (if pageFileName_wc e url \<in> set (visitedPages s)
      then visitedPages s else visitedPages s @ [pageFileName_wc e url])"
  by (simp add: crawl_wc_def Let_def add_def)

lemma crawl_wc_requested:
  "requested (trace (crawl_wc e url b s)) =
     (if pageFileName_wc e url \<in> set (visitedPages s)
      then requested (trace s)
      else requested (trace s) @ [path_join b (pageFileName_wc e url)])"
  by (simp add: crawl_wc_def Let_def)

lemma crawl_wc_req_inv:
  assumes "req_inv e s"
  shows "req_inv e (crawl_wc e url (folderName e) s)"
proof -
  let ?f = "path_join (folderName e) (pageFileName_wc e url)"
  have new: "?f \<notin> set (requested (trace s))"
    if "pageFileName_wc e url \<notin> set (visitedPages s)"
  proof
    assume "?f \<in> set (requested (trace s))"
    with assms obtain n where "n \<in> set (visitedPages s)" "?f = path_join (folderName e) n"
      by (auto simp: req_inv_def)
    with that show False by (auto dest: path_join_inj)
  qed
  show ?thesis
    using assms new
    by (auto simp: req_inv_def crawl_wc_requested crawl_wc_visitedPages)
qed

lemma fold_discover_wc_req_inv: "req_inv e s \<Longrightarrow> req_inv e (fold (discover_wc e) d s)"
proof (induction d arbitrary: s)
  case (Cons n d)
  from Cons.prems have "req_inv e (discover_wc e n s)"
    by (cases "(e, n, s)" rule: discover_wc.cases) (simp_all add: crawl_wc_req_inv)
  then show ?case
    using Cons.IH by simp
qed simp

lemma img_callback_wc_frame:
  "visitedPages (img_callback_wc f n s) = visitedPages s \<and>
   imageDownloads (img_callback_wc f n s) = imageDownloads s \<and>
   files (img_callback_wc f n s) = files s \<and>
   requested (trace (img_callback_wc f n s)) = requested (trace s) \<and>
   written (trace (img_callback_wc f n s)) = written (trace s)"
  by (cases "(f, n, s)" rule: img_callback_wc.cases) (simp_all add: Let_def)

lemma fold_img_callback_wc_frame:
  "visitedPages (fold (img_callback_wc f) d s) = visitedPages s \<and>
   imageDownloads (fold (img_callback_wc f) d s) = imageDownloads s \<and>
   files (fold (img_callback_wc f) d s) = files s \<and>
   requested (trace (fold (img_callback_wc f) d s)) = requested (trace s) \<and>
   written (trace (fold (img_callback_wc f) d s)) = written (trace s)"
proof (induction d arbitrary: s)
  case (Cons n d)
  show ?case
    using Cons [of "img_callback_wc f n s"] img_callback_wc_frame [of f n s] by simp
qed simp

lemma fold_img_callback_wc_sel [simp]:
  "visitedPages (fold (img_callback_wc f) d s) = visitedPages s"
  "imageDownloads (fold (img_callback_wc f) d s) = imageDownloads s"
  "files (fold (img_callback_wc f) d s) = files s"
  "requested (trace (fold (img_callback_wc f) d s)) = requested (trace s)"
  "written (trace (fold (img_callback_wc f) d s)) = written (trace s)"
  using fold_img_callback_wc_frame [of f d s] by simp_all

lemma req_inv_cong:
  "req_inv e s \<Longrightarrow> visitedPages s' = visitedPages s \<Longrightarrow>
   requested (trace s') = requested (trace s) \<Longrightarrow> req_inv e s'"
  by (simp add: req_inv_def)

lemma resume_wc_req_inv: "req_inv e s \<Longrightarrow> req_inv e (resume_wc e t r s)"
proof (cases "(e, t, r, s)" rule: resume_wc.cases)
  case (6 e' url d s')
  assume "req_inv e s"
  with 6 show ?thesis by (simp add: fold_discover_wc_req_inv)
qed (auto elim!: req_inv_cong simp: Let_def)

lemma step_wc_req_inv: "req_inv e s \<Longrightarrow> req_inv e (step_wc e ev s)"
proof -
  assume inv: "req_inv e s"
  then have "req_inv e (s\<lparr>pending := p\<rparr>)" for p
    by (simp add: req_inv_def)
  with inv show ?thesis
    by (simp add: step_wc_def Let_def resume_wc_req_inv)
qed

lemma run_wc_req_inv: "req_inv e s \<Longrightarrow> req_inv e (run_wc e evs s)"
  unfolding run_wc_def by (induction evs arbitrary: s) (simp_all add: step_wc_req_inv)

lemma main_wc_req_inv: "req_inv e (run_wc e evs (main_wc e))"
  unfolding main_wc_def
  by (intro run_wc_req_inv crawl_wc_req_inv) (simp add: req_inv_def init_def)

lemma extends_crawl_wc [simp]: "extends s (crawl_wc e url b s)"
  by (auto simp: extends_def crawl_wc_def Let_def add_def)

lemma extends_fold_discover_wc [simp]: "extends s (fold (discover_wc e) d s)"
proof (induction d arbitrary: s)
  case (Cons n d)
  have "extends s (discover_wc e n s)"
    by (cases "(e, n, s)" rule: discover_wc.cases) simp_all
  then show ?case
    using Cons [of "discover_wc e n s"] by (auto intro: extends_trans)
qed simp

lemma extends_fold_img_callback_wc [simp]: "extends s (fold (img_callback_wc f) d s)"
proof (induction d arbitrary: s)
  case (Cons n d)
  have "extends s (img_callback_wc f n s)"
    by (cases "(f, n, s)" rule: img_callback_wc.cases) (simp_all add: Let_def extends_after)
  then show ?case
    using Cons [of "img_callback_wc f n s"] by (auto intro: extends_trans)
qed simp

lemma extends_after_wc:
  "extends s s1 \<Longrightarrow> extends s (fold (img_callback_wc f) d s1)"
  "extends s s1 \<Longrightarrow> dom (files s1) \<subseteq> dom m \<Longrightarrow> extends s (s1\<lparr>files := m\<rparr>)"
  by (erule extends_trans, simp) (simp add: extends_def, blast)

lemma extends_resume_wc [simp]: "extends s (resume_wc e t r s)"
  by (cases "(e, t, r, s)" rule: resume_wc.cases)
     (auto simp: Let_def simp del: downloadImage_done_sel
        intro!: extends_after extends_after_wc)

lemma extends_step_wc [simp]: "extends s (step_wc e ev s)"
  by (simp add: step_wc_def Let_def extends_trans [OF extends_basic(3) extends_resume_wc])

lemma extends_run_wc [simp]: "extends s (run_wc e evs s)"
  unfolding run_wc_def
proof (induction evs arbitrary: s)
  case (Cons ev evs)
  show ?case
    using Cons [of "step_wc e ev s"] by (auto intro: extends_trans [OF extends_step_wc])
qed simp

section \<open>One discovery request for each page request\<close>

lemma page_urls_simps [simp]:
  "page_urls [] = []"
  "page_urls (x # xs) = page_url_of x @ page_urls xs"
  "page_urls (xs @ ys) = page_urls xs @ page_urls ys"
  by (simp_all add: page_urls_def)

lemma discoveries_simps [simp]:
  "discoveries [] = []"
  "discoveries (x # xs) = discovery_of x @ discoveries xs"
  "discoveries (xs @ ys) = discoveries xs @ discoveries ys"
  by (simp_all add: discoveries_def)

lemma to_discover_simps [simp]:
  "to_discover [] = []"
  "to_discover (t # ts) = url_of_task t @ to_discover ts"
  "to_discover (ts @ us) = to_discover ts @ to_discover us"
  by (simp_all add: to_discover_def)

lemma logs_not_requests:
  "list_all is_log es \<Longrightarrow> page_urls es = [] \<and> discoveries es = []"
proof (induction es)
  case (Cons x xs)
  then show ?case by (cases x) auto
qed simp

lemma extract_not_requests [simp]:
  "page_urls (snd (extractLocalPathFromUrl e url)) = []"
  "discoveries (snd (extractLocalPathFromUrl e url)) = []"
  using logs_not_requests [OF extract_logs [of e url]] by simp_all

lemma link_logs_not_requests [simp]:
  "page_urls (concat (map (\<lambda>n. snd (rewrite_link e n)) d)) = []"
  "discoveries (concat (map (\<lambda>n. snd (rewrite_link e n)) d)) = []"
  using logs_not_requests [OF link_logs [of e d]] by simp_all

lemma disc_inv_cong:
  "disc_inv s \<Longrightarrow> discoveries (trace s') = discoveries (trace s) \<Longrightarrow>
   page_urls (trace s') = page_urls (trace s) \<Longrightarrow>
   to_discover (pending s') = to_discover (pending s) \<Longrightarrow> disc_inv s'"
  by (simp add: disc_inv_def)

lemma crawl_disc_inv: "disc_inv s \<Longrightarrow> disc_inv (crawl e url b s)"
  by (simp add: disc_inv_def crawl_def Let_def)

lemma fold_discover_disc_inv: "disc_inv s \<Longrightarrow> disc_inv (fold (discover e) d s)"
proof (induction d arbitrary: s)
  case (Cons n d)
  from Cons.prems have "disc_inv (discover e n s)"
    by (cases "(e, n, s)" rule: discover.cases) (simp_all add: crawl_disc_inv)
  then show ?case using Cons.IH by simp
qed simp

lemma save_page_disc [simp]:
  "discoveries (trace (save_page e url f d s)) = discoveries (trace s)"
  "page_urls (trace (save_page e url f d s)) = page_urls (trace s)"
  by (simp_all add: save_page_def Let_def)

lemma images_loop_disc [simp]:
  "discoveries (trace (images_loop e url f done rest s)) = discoveries (trace s)"
  "page_urls (trace (images_loop e url f done rest s)) = page_urls (trace s)"
  "to_discover (pending (images_loop e url f done rest s)) = to_discover (pending s)"
  by (induction e url f "done" rest s rule: images_loop.induct) simp_all

lemma downloadImage_done_disc [simp]:
  "discoveries (trace (downloadImage_done u p ok s)) = discoveries (trace s)"
  "page_urls (trace (downloadImage_done u p ok s)) = page_urls (trace s)"
  by (simp_all add: downloadImage_done_def)

lemma to_discover_remove:
  "i < length ts \<Longrightarrow>
   mset (to_discover (take i ts @ drop (Suc i) ts)) + mset (url_of_task (ts ! i)) =
   mset (to_discover ts)"
proof -
  assume "i < length ts"
  then have "ts = take i ts @ ts ! i # drop (Suc i) ts"
    by (simp add: id_take_nth_drop)
  then have "to_discover ts = to_discover (take i ts @ ts ! i # drop (Suc i) ts)"
    by simp
  then show ?thesis
    by (simp del: append_take_drop_id)
qed

lemma resume_disc_inv:
  assumes "mset (discoveries (trace s)) + mset (to_discover (pending s)) +
      mset (url_of_task t) = mset (page_urls (trace s))"
  shows "disc_inv (resume e t r s)"
proof (cases "(e, t, r, s)" rule: resume.cases)
  case (5 e' url d s')
  with assms have "disc_inv s" by (simp add: disc_inv_def)
  with 5 show ?thesis by (simp add: fold_discover_disc_inv)
qed (use assms in \<open>simp_all add: disc_inv_def Let_def ac_simps\<close>)

lemma step_disc_inv: "disc_inv s \<Longrightarrow> disc_inv (step e ev s)"
proof (cases "fst ev < length (pending s)")
  case True
  assume "disc_inv s"
  with to_discover_remove [OF True]
  have "mset (discoveries (trace s)) +
      mset (to_discover (take (fst ev) (pending s) @ drop (Suc (fst ev)) (pending s))) +
      mset (url_of_task (pending s ! fst ev)) = mset (page_urls (trace s))"
    by (simp add: disc_inv_def ac_simps)
  then have "disc_inv (resume e (pending s ! fst ev) (snd ev)
      (s\<lparr>pending := take (fst ev) (pending s) @ drop (Suc (fst ev)) (pending s)\<rparr>))"
    by (intro resume_disc_inv) simp
  with True show ?thesis by (simp add: step_def Let_def)
qed (simp add: step_def Let_def)

lemma run_disc_inv: "disc_inv s \<Longrightarrow> disc_inv (run e evs s)"
  unfolding run_def by (induction evs arbitrary: s) (simp_all add: step_disc_inv)

lemma main_disc_inv: "disc_inv (run e evs (main e))"
  unfolding main_def
  by (intro run_disc_inv crawl_disc_inv) (simp add: disc_inv_def init_def)

lemma crawl_wc_disc_inv: "disc_inv s \<Longrightarrow> disc_inv (crawl_wc e url b s)"
  by (simp add: disc_inv_def crawl_wc_def Let_def)

lemma fold_discover_wc_disc_inv: "disc_inv s \<Longrightarrow> disc_inv (fold (discover_wc e) d s)"
proof (induction d arbitrary: s)
  case (Cons n d)
  from Cons.prems have "disc_inv (discover_wc e n s)"
    by (cases "(e, n, s)" rule: discover_wc.cases) (simp_all add: crawl_wc_disc_inv)
  then show ?case using Cons.IH by simp
qed simp

lemma fold_img_callback_wc_disc:
  "discoveries (trace (fold (img_callback_wc f) d s)) = discoveries (trace s) \<and>
   page_urls (trace (fold (img_callback_wc f) d s)) = page_urls (trace s) \<and>
   to_discover (pending (fold (img_callback_wc f) d s)) = to_discover (pending s) \<and>
   concat (map page_of_task_wc (pending (fold (img_callback_wc f) d s))) =
     concat (map page_of_task_wc (pending s))"
proof (induction d arbitrary: s)
  case (Cons n d)
  have "discoveries (trace (img_callback_wc f n s)) = discoveries (trace s) \<and>
   page_urls (trace (img_callback_wc f n s)) = page_urls (trace s) \<and>
   to_discover (pending (img_callback_wc f n s)) = to_discover (pending s) \<and>
   concat (map page_of_task_wc (pending (img_callback_wc f n s))) =
     concat (map page_of_task_wc (pending s))"
    by (cases "(f, n, s)" rule: img_callback_wc.cases) (simp_all add: Let_def)
  with Cons [of "img_callback_wc f n s"] show ?case by simp
qed simp

lemma resume_wc_disc_inv:
  assumes "mset (discoveries (trace s)) + mset (to_discover (pending s)) +
      mset (url_of_task t) = mset (page_urls (trace s))"
  shows "disc_inv (resume_wc e t r s)"
proof (cases "(e, t, r, s)" rule: resume_wc.cases)
  case (6 e' url d s')
  with assms have "disc_inv s" by (simp add: disc_inv_def)
  with 6 show ?thesis by (simp add: fold_discover_wc_disc_inv)
qed (use assms in \<open>simp_all add: disc_inv_def Let_def ac_simps fold_img_callback_wc_disc\<close>)

lemma step_wc_disc_inv: "disc_inv s \<Longrightarrow> disc_inv (step_wc e ev s)"
proof (cases "fst ev < length (pending s)")
  case True
  assume "disc_inv s"
  with to_discover_remove [OF True]
  have "mset (discoveries (trace s)) +
      mset (to_discover (take (fst ev) (pending s) @ drop (Suc (fst ev)) (pending s))) +
      mset (url_of_task (pending s ! fst ev)) = mset (page_urls (trace s))"
    by (simp add: disc_inv_def ac_simps)
  then have "disc_inv (resume_wc e (pending s ! fst ev) (snd ev)
      (s\<lparr>pending := take (fst ev) (pending s) @ drop (Suc (fst ev)) (pending s)\<rparr>))"
    by (intro resume_wc_disc_inv) simp
  with True show ?thesis by (simp add: step_wc_def Let_def)
qed (simp add: step_wc_def Let_def)

lemma run_wc_disc_inv: "disc_inv s \<Longrightarrow> disc_inv (run_wc e evs s)"
  unfolding run_wc_def by (induction evs arbitrary: s) (simp_all add: step_wc_disc_inv)

lemma main_wc_disc_inv: "disc_inv (run_wc e evs (main_wc e))"
  unfolding main_wc_def
  by (intro run_wc_disc_inv crawl_wc_disc_inv) (simp add: disc_inv_def init_def)

lemma disc_inv_sub: "disc_inv s \<Longrightarrow> mset (discoveries (trace s)) \<subseteq># mset (page_urls (trace s))"
proof -
  assume "disc_inv s"
  then have "mset (page_urls (trace s)) =
      mset (discoveries (trace s)) + mset (to_discover (pending s))"
    by (simp add: disc_inv_def)
  then show ?thesis by simp
qed

section \<open>The files written by \<^verbatim>\<open>webCrawler.ts\<close>\<close>

lemma tokens_wc_sel [simp]:
  "tokens_wc (emit es s) = tokens_wc s + mset (written es)"
  "tokens_wc (suspend t s) = tokens_wc s + mset (page_of_task_wc t)"
  "tokens_wc (s\<lparr>imageDownloads := x\<rparr>) = tokens_wc s"
  "tokens_wc (s\<lparr>files := m\<rparr>) = tokens_wc s"
  "tokens_wc (downloadImage_done u p ok s) = tokens_wc s"
  by (simp_all add: tokens_wc_def downloadImage_done_def)

lemma tokens_wc_fold_img [simp]:
  "tokens_wc (fold (img_callback_wc f) d s) = tokens_wc s"
  using fold_img_callback_wc_disc [of f d s] by (simp add: tokens_wc_def)

lemma crawl_wc_tokens:
  "tokens_wc (crawl_wc e url b s) =
     (if pageFileName_wc e url \<in> set (visitedPages s) then tokens_wc s
      else tokens_wc s + {#path_join b (pageFileName_wc e url),
                           path_join b (pageFileName_wc e url)#})"
  by (simp add: crawl_wc_def Let_def tokens_wc_def)

lemma crawl_wc_page_inv_wc:
  "page_inv_wc e D s \<Longrightarrow> page_inv_wc e D (crawl_wc e url (folderName e) s)"
  by (auto simp: page_inv_wc_def crawl_wc_req_inv crawl_wc_tokens crawl_wc_requested ac_simps)

lemma fold_discover_wc_page_inv_wc:
  "page_inv_wc e D s \<Longrightarrow> page_inv_wc e D (fold (discover_wc e) d s)"
proof (induction d arbitrary: s)
  case (Cons n d)
  from Cons.prems have "page_inv_wc e D (discover_wc e n s)"
    by (cases "(e, n, s)" rule: discover_wc.cases) (simp_all add: crawl_wc_page_inv_wc)
  then show ?case using Cons.IH by simp
qed simp

lemma tokens_wc_remove:
  "i < length (pending s) \<Longrightarrow>
   tokens_wc (s\<lparr>pending := take i (pending s) @ drop (Suc i) (pending s)\<rparr>) +
     mset (page_of_task_wc (pending s ! i)) = tokens_wc s"
proof -
  assume "i < length (pending s)"
  then have "pending s = take i (pending s) @ pending s ! i # drop (Suc i) (pending s)"
    by (simp add: id_take_nth_drop)
  then have "concat (map page_of_task_wc (pending s)) =
      concat (map page_of_task_wc
        (take i (pending s) @ pending s ! i # drop (Suc i) (pending s)))"
    by simp
  then show ?thesis
    by (simp add: tokens_wc_def ac_simps del: append_take_drop_id)
qed

lemma resume_wc_page_inv_wc:
  assumes "req_inv e s"
    and "tokens_wc s + mset (page_of_task_wc t) + D
           \<subseteq># mset (requested (trace s)) + mset (requested (trace s))"
  shows "page_inv_wc e D (resume_wc e t r s)"
proof -
  have "tokens_wc s + D \<subseteq># tokens_wc s + mset (page_of_task_wc t) + D"
    by simp
  from this assms(2)
  have weaker: "tokens_wc s + D \<subseteq># mset (requested (trace s)) + mset (requested (trace s))"
    by (rule subset_mset.order_trans)
  with assms(1) have inv: "page_inv_wc e D s"
    by (simp add: page_inv_wc_def)
  have req: "req_inv e (resume_wc e t r s)"
    using assms(1) by (rule resume_wc_req_inv)
  show ?thesis
  proof (cases "(e, t, r, s)" rule: resume_wc.cases)
    case (1 e' url f s')
    with req weaker show ?thesis by (simp add: page_inv_wc_def)
  next
    case (2 e' url f d s')
    with req assms(2) show ?thesis by (simp add: page_inv_wc_def ac_simps)
  next
    case (3 e' url f d r' s')
    with req assms(2) show ?thesis by (simp add: page_inv_wc_def Let_def ac_simps)
  next
    case (4 e' url f d r' s')
    with req assms(2) show ?thesis by (simp add: page_inv_wc_def Let_def ac_simps)
  next
    case (5 e' url s')
    with req weaker show ?thesis by (simp add: page_inv_wc_def)
  next
    case (6 e' url d s')
    with inv show ?thesis by (simp add: fold_discover_wc_page_inv_wc)
  next
    case (7 e' src p r' s')
    with req weaker show ?thesis by (simp add: page_inv_wc_def Let_def)
  qed (use inv in simp_all)
qed

lemma step_wc_page_inv_wc: "page_inv_wc e D s \<Longrightarrow> page_inv_wc e D (step_wc e ev s)"
proof (cases "fst ev < length (pending s)")
  case True
  let ?s0 = "s\<lparr>pending := take (fst ev) (pending s) @ drop (Suc (fst ev)) (pending s)\<rparr>"
  assume inv: "page_inv_wc e D s"
  then have "req_inv e ?s0"
    by (simp add: page_inv_wc_def req_inv_def)
  moreover from inv tokens_wc_remove [OF True]
  have "tokens_wc ?s0 + mset (page_of_task_wc (pending s ! fst ev)) + D
          \<subseteq># mset (requested (trace ?s0)) + mset (requested (trace ?s0))"
    by (simp add: page_inv_wc_def)
  ultimately have "page_inv_wc e D (resume_wc e (pending s ! fst ev) (snd ev) ?s0)"
    by (rule resume_wc_page_inv_wc)
  with True show ?thesis by (simp add: step_wc_def Let_def)
qed (simp add: step_wc_def Let_def)

lemma run_wc_page_inv_wc: "page_inv_wc e D s \<Longrightarrow> page_inv_wc e D (run_wc e evs s)"
  unfolding run_wc_def by (induction evs arbitrary: s) (simp_all add: step_wc_page_inv_wc)

lemma main_wc_page_inv_wc: "page_inv_wc e {#} (run_wc e evs (main_wc e))"
  unfolding main_wc_def
  by (intro run_wc_page_inv_wc crawl_wc_page_inv_wc)
     (simp add: page_inv_wc_def req_inv_def tokens_wc_def init_def)

lemma page_inv_wc_dead_not_written:
  assumes "page_inv_wc e {#f, f#} s"
  shows "f \<notin> set (written (trace s))"
proof
  assume "f \<in> set (written (trace s))"
  then have "f \<in># tokens_wc s" by (simp add: tokens_wc_def)
  then have c1: "1 \<le> count (tokens_wc s) f"
    by (simp add: Suc_le_eq)
  have c2: "count (tokens_wc s + {#f, f#}) f = count (tokens_wc s) f + 2"
    by simp
  from assms
  have c3: "count (tokens_wc s + {#f, f#}) f
          \<le> count (mset (requested (trace s)) + mset (requested (trace s))) f"
    by (simp only: page_inv_wc_def mset_subset_eq_count)
  have c4: "count (mset (requested (trace s)) + mset (requested (trace s))) f =
      count (mset (requested (trace s))) f + count (mset (requested (trace s))) f"
    by simp
  have c5: "count (mset (requested (trace s))) f \<le> 1"
  proof -
    from assms have "distinct (requested (trace s))"
      by (simp add: page_inv_wc_def req_inv_def)
    then show ?thesis
      using distinct_count_le_1 [of "requested (trace s)"] by blast
  qed
  from c1 c2 c3 c4 c5 show False by linarith
qed

lemma failed_page_is_dead_wc:
  assumes "page_inv_wc e {#} s" and "i < length (pending s)"
    and "pending s ! i = AwaitPage url f"
  shows "page_inv_wc e {#f, f#} (step_wc e (i, None) s)"
proof -
  let ?s0 = "s\<lparr>pending := take i (pending s) @ drop (Suc i) (pending s)\<rparr>"
  from assms(2,3) have "tokens_wc ?s0 + {#f, f#} = tokens_wc s"
    using tokens_wc_remove [of i s] by simp
  with assms(1) have "page_inv_wc e {#f, f#} ?s0"
    by (simp add: page_inv_wc_def req_inv_def)
  then have "page_inv_wc e {#f, f#} (resume_wc e (AwaitPage url f) None ?s0)"
    by (simp add: page_inv_wc_def req_inv_def)
  with assms(2,3) show ?thesis
    by (simp add: step_wc_def Let_def)
qed

section \<open>The claims on the Crawl Coordinator\<close>

lemma emit_Nil [simp]: "emit [] s = s"
  by (simp add: emit_def)

lemma extract_logs_cases:
  "snd (extractLocalPathFromUrl e url) = [] \<or>
   snd (extractLocalPathFromUrl e url) = [Log (InvalidURL url)]"
  by (simp add: extractLocalPathFromUrl_def split: option.splits)

lemma crawl_quiet: "pageFileName e url \<in> set (visitedPages s) \<Longrightarrow> quiet url s (crawl e url b s)"
  using crawl_visited [of e url s b] extract_logs_cases [of e url]
  by (auto simp: quiet_def)

lemma crawl_wc_quiet:
  "pageFileName_wc e url \<in> set (visitedPages s) \<Longrightarrow> quiet url s (crawl_wc e url b s)"
  using crawl_wc_visited [of e url s b] extract_logs_cases [of e url]
  by (auto simp: quiet_def)

lemma fold_discover_ceiling:
  "maxPages \<le> length (visitedPages s) \<Longrightarrow> fold (discover e) d s = s"
proof (induction d)
  case (Cons n d)
  then have "discover e n s = s"
    by (cases "(e, n, s)" rule: discover.cases) (simp_all add: crawl_ceiling)
  with Cons show ?case by simp
qed simp

lemma resume_ceiling:
  "maxPages \<le> length (visitedPages s) \<Longrightarrow>
   visitedPages (resume e t r s) = visitedPages s \<and>
   requested (trace (resume e t r s)) = requested (trace s)"
  by (cases "(e, t, r, s)" rule: resume.cases) (simp_all add: fold_discover_ceiling Let_def)

lemma step_ceiling:
  "maxPages \<le> length (visitedPages s) \<Longrightarrow>
   visitedPages (step e ev s) = visitedPages s \<and>
   requested (trace (step e ev s)) = requested (trace s)"
  using resume_ceiling
    [of "s\<lparr>pending := take (fst ev) (pending s) @ drop (Suc (fst ev)) (pending s)\<rparr>"]
  by (simp add: step_def Let_def)

lemma run_ceiling:
  "maxPages \<le> length (visitedPages s) \<Longrightarrow>
   visitedPages (run e evs s) = visitedPages s \<and>
   requested (trace (run e evs s)) = requested (trace s)"
  unfolding run_def
proof (induction evs arbitrary: s)
  case (Cons ev evs)
  from Cons.prems have st: "visitedPages (step e ev s) = visitedPages s"
    "requested (trace (step e ev s)) = requested (trace s)"
    using step_ceiling [of s e ev] by simp_all
  with Cons.prems have "maxPages \<le> length (visitedPages (step e ev s))" by simp
  from Cons.IH [OF this] st show ?case by simp
qed simp

lemma length_full_visited: "length full_visited = maxPages"
  by (simp add: full_visited_def)

lemma full_state_ceiling: "maxPages \<le> length (visitedPages full_state)"
  by (simp add: full_state_def length_full_visited)

text \<open>
  Claim C6: within a run a page, identified by its file name, is fetched and transformed at
  most once, however many pages link to it: the name enters the visited set before the
  request, and \<^verbatim>\<open>crawl\<close> on a visited name requests nothing and suspends nothing.
  In every state of every run of either variant, whatever the order in which the
  suspended tasks are resumed and whatever the network answers, no file is the target of
  two calls of \<^verbatim>\<open>downloadAndSavePage\<close> and every such file is the file of a visited
  name; in \<^verbatim>\<open>part_000\<close> no file is written twice. The step that discovers the links
  requests the URL once more, as the coordinator is designed: there are as many of these
  requests as calls of \<^verbatim>\<open>downloadAndSavePage\<close> that have returned, for the same URLs.
\<close>

theorem C6_page_fetched_and_transformed_at_most_once:
  "distinct (requested (trace (run e evs (main e)))) \<and>
   set (requested (trace (run e evs (main e))))
     \<subseteq> path_join (folderName e) ` set (visitedPages (run e evs (main e))) \<and>
   distinct (written (trace (run e evs (main e)))) \<and>
   mset (discoveries (trace (run e evs (main e))))
     \<subseteq># mset (page_urls (trace (run e evs (main e)))) \<and>
   (pageFileName e url \<in> set (visitedPages s) \<longrightarrow> quiet url s (crawl e url b s)) \<and>
   distinct (requested (trace (run_wc e evs' (main_wc e)))) \<and>
   set (requested (trace (run_wc e evs' (main_wc e))))
     \<subseteq> path_join (folderName e) ` set (visitedPages (run_wc e evs' (main_wc e))) \<and>
   mset (discoveries (trace (run_wc e evs' (main_wc e))))
     \<subseteq># mset (page_urls (trace (run_wc e evs' (main_wc e)))) \<and>
   (pageFileName_wc e url \<in> set (visitedPages s) \<longrightarrow> quiet url s (crawl_wc e url b s))"
proof -
  have inv: "page_inv e {#} (run e evs (main e))"
    by (rule main_page_inv)
  then have "distinct (requested (trace (run e evs (main e))))"
    and "set (requested (trace (run e evs (main e))))
           \<subseteq> path_join (folderName e) ` set (visitedPages (run e evs (main e)))"
    by (simp_all add: page_inv_def)
  moreover from inv have "distinct (written (trace (run e evs (main e))))"
    by (rule page_inv_distinct_written)
  moreover have "mset (discoveries (trace (run e evs (main e))))
      \<subseteq># mset (page_urls (trace (run e evs (main e))))"
    using main_disc_inv by (rule disc_inv_sub)
  moreover have "req_inv e (run_wc e evs' (main_wc e))"
    by (rule main_wc_req_inv)
  then have "distinct (requested (trace (run_wc e evs' (main_wc e))))"
    and "set (requested (trace (run_wc e evs' (main_wc e))))
           \<subseteq> path_join (folderName e) ` set (visitedPages (run_wc e evs' (main_wc e)))"
    by (simp_all add: req_inv_def)
  moreover have "mset (discoveries (trace (run_wc e evs' (main_wc e))))
      \<subseteq># mset (page_urls (trace (run_wc e evs' (main_wc e))))"
    using main_wc_disc_inv by (rule disc_inv_sub)
  ultimately show ?thesis
    by (simp add: crawl_quiet crawl_wc_quiet)
qed

theorem C6_witness:
  "pageFileName example_env ''https://example.com/'' \<in> set (visitedPages (main example_env)) \<and>
   quiet ''https://example.com/'' (main example_env)
     (crawl example_env ''https://example.com/'' ''results/example.com'' (main example_env)) \<and>
   pageFileName_wc example_env ''https://example.com/Foo''
     \<in> set (visitedPages
         (run_wc example_env
            [(0, Some [Anchor (Some ''https://example.com/Foo'')]),
             (1, Some [Anchor (Some ''https://example.com/Foo'')])]
            (main_wc example_env))) \<and>
   quiet ''https://example.com/Foo''
     (run_wc example_env
        [(0, Some [Anchor (Some ''https://example.com/Foo'')]),
         (1, Some [Anchor (Some ''https://example.com/Foo'')])]
        (main_wc example_env))
     (crawl_wc example_env ''https://example.com/Foo'' ''results/example.com''
        (run_wc example_env
           [(0, Some [Anchor (Some ''https://example.com/Foo'')]),
            (1, Some [Anchor (Some ''https://example.com/Foo'')])]
           (main_wc example_env)))"
proof -
  have h1: "pageFileName example_env ''https://example.com/''
              \<in> set (visitedPages (main example_env))"
    by code_simp
  have h2: "pageFileName_wc example_env ''https://example.com/Foo''
     \<in> set (visitedPages
         (run_wc example_env
            [(0, Some [Anchor (Some ''https://example.com/Foo'')]),
             (1, Some [Anchor (Some ''https://example.com/Foo'')])]
            (main_wc example_env)))"
    by code_simp
  note q1 = C6_page_fetched_and_transformed_at_most_once
    [THEN conjunct2, THEN conjunct2, THEN conjunct2, THEN conjunct2, THEN conjunct1,
     THEN mp, OF h1]
  note q2 = C6_page_fetched_and_transformed_at_most_once
    [THEN conjunct2, THEN conjunct2, THEN conjunct2, THEN conjunct2, THEN conjunct2,
     THEN conjunct2, THEN conjunct2, THEN conjunct2, THEN mp, OF h2]
  from h1 h2 q1 q2 show ?thesis by (intro conjI)
qed

text \<open>
  Claim C10: of two URLs whose paths normalise to the same file name only the first to be
  crawled is fetched and written; the crawl of the second, whenever it comes, requests
  nothing, writes nothing and discovers no link, since the visited set holds file names and
  not URLs. In \<^verbatim>\<open>part_000\<close> no file is written twice, so the file of the first page is
  not overwritten.
\<close>

theorem C10_second_url_of_a_filename_is_skipped:
  "(pageFileName e u1 = pageFileName e u2 \<longrightarrow>
      quiet u2 (run e evs (crawl e u1 b1 s)) (crawl e u2 b2 (run e evs (crawl e u1 b1 s)))) \<and>
   (pageFileName_wc e u1 = pageFileName_wc e u2 \<longrightarrow>
      quiet u2 (run_wc e evs (crawl_wc e u1 b1 s))
        (crawl_wc e u2 b2 (run_wc e evs (crawl_wc e u1 b1 s)))) \<and>
   distinct (written (trace (run e evs (main e))))"
proof (intro conjI impI)
  assume same: "pageFileName e u1 = pageFileName e u2"
  let ?s1 = "crawl e u1 b1 s"
  let ?s' = "run e evs ?s1"
  have ext: "extends ?s1 ?s'" by simp
  show "quiet u2 ?s' (crawl e u2 b2 ?s')"
  proof (cases "maxPages \<le> length (visitedPages ?s1)")
    case True
    with extends_length [OF ext] have "maxPages \<le> length (visitedPages ?s')" by simp
    then show ?thesis by (simp add: crawl_ceiling quiet_def)
  next
    case False
    then have "pageFileName e u1 \<in> set (visitedPages ?s1)"
      by (auto simp: crawl_visitedPages split: if_splits)
    with ext have "pageFileName e u1 \<in> set (visitedPages ?s')"
      by (rule extends_visited)
    with same show ?thesis by (simp add: crawl_quiet)
  qed
next
  assume same: "pageFileName_wc e u1 = pageFileName_wc e u2"
  let ?s1 = "crawl_wc e u1 b1 s"
  let ?s' = "run_wc e evs ?s1"
  have ext: "extends ?s1 ?s'" by simp
  have "pageFileName_wc e u1 \<in> set (visitedPages ?s1)"
    by (simp add: crawl_wc_visitedPages)
  with ext have "pageFileName_wc e u1 \<in> set (visitedPages ?s')"
    by (rule extends_visited)
  with same show "quiet u2 ?s' (crawl_wc e u2 b2 ?s')" by (simp add: crawl_wc_quiet)
next
  show "distinct (written (trace (run e evs (main e))))"
    using main_page_inv by (rule page_inv_distinct_written)
qed

theorem C10_witness:
  "pageFileName example_env ''https://example.com/foo.bar'' =
     pageFileName example_env ''https://example.com/foo-bar'' \<and>
   pageFileName_wc example_env ''https://example.com/foo.bar'' =
     pageFileName_wc example_env ''https://example.com/foo-bar'' \<and>
   ''https://example.com/foo.bar'' \<noteq> ''https://example.com/foo-bar'' \<and>
   quiet ''https://example.com/foo-bar''
     (run example_env [(0, Some [])]
        (crawl example_env ''https://example.com/foo.bar'' ''results/example.com'' init))
     (crawl example_env ''https://example.com/foo-bar'' ''results/example.com''
        (run example_env [(0, Some [])]
           (crawl example_env ''https://example.com/foo.bar'' ''results/example.com'' init))) \<and>
   quiet ''https://example.com/foo-bar''
     (run_wc example_env [(0, Some [])]
        (crawl_wc example_env ''https://example.com/foo.bar'' ''results/example.com'' init))
     (crawl_wc example_env ''https://example.com/foo-bar'' ''results/example.com''
        (run_wc example_env [(0, Some [])]
           (crawl_wc example_env ''https://example.com/foo.bar'' ''results/example.com'' init)))"
proof -
  have h1: "pageFileName example_env ''https://example.com/foo.bar'' =
     pageFileName example_env ''https://example.com/foo-bar''"
    by code_simp
  have h2: "pageFileName_wc example_env ''https://example.com/foo.bar'' =
     pageFileName_wc example_env ''https://example.com/foo-bar''"
    by code_simp
  have h3: "''https://example.com/foo.bar'' \<noteq> ''https://example.com/foo-bar''"
    by simp
  note q1 = C10_second_url_of_a_filename_is_skipped [THEN conjunct1, THEN mp, OF h1]
  note q2 = C10_second_url_of_a_filename_is_skipped
    [THEN conjunct2, THEN conjunct1, THEN mp, OF h2]
  from h1 h2 h3 q1 q2 show ?thesis by (intro conjI)
qed

text \<open>
  Claim C9: once the number of visited pages has reached the ceiling, no further candidate
  is fetched, transformed or written. From a state at the ceiling on, whatever happens,
  every call of \<^verbatim>\<open>crawl\<close> returns at once and changes nothing, the visited set stays as
  it is, \<^verbatim>\<open>downloadAndSavePage\<close> is called for no further file (the pages admitted
  before are still completed), and every file on disk stays on disk.
\<close>

theorem C9_ceiling_stops_all_further_candidates:
  "maxPages \<le> length (visitedPages s) \<Longrightarrow>
   crawl e url b (run e evs s) = run e evs s \<and>
   visitedPages (run e evs s) = visitedPages s \<and>
   requested (trace (run e evs s)) = requested (trace s) \<and>
   dom (files s) \<subseteq> dom (files (run e evs s))"
proof -
  assume full: "maxPages \<le> length (visitedPages s)"
  then have keep: "visitedPages (run e evs s) = visitedPages s"
    "requested (trace (run e evs s)) = requested (trace s)"
    using run_ceiling [of s e evs] by simp_all
  with full have "crawl e url b (run e evs s) = run e evs s"
    by (simp add: crawl_ceiling)
  moreover have "dom (files s) \<subseteq> dom (files (run e evs s))"
    using extends_run [of s e evs] by (simp add: extends_def)
  ultimately show ?thesis using keep by simp
qed

theorem C9_witness:
  "maxPages \<le> length (visitedPages full_state) \<and>
   crawl example_env ''https://example.com/new'' ''results/example.com''
       (run example_env [(0, Some [Anchor (Some ''https://example.com/new'')])] full_state) =
     run example_env [(0, Some [Anchor (Some ''https://example.com/new'')])] full_state \<and>
   visitedPages (run example_env [(0, Some [Anchor (Some ''https://example.com/new'')])]
       full_state) = visitedPages full_state \<and>
   requested (trace (run example_env [(0, Some [Anchor (Some ''https://example.com/new'')])]
       full_state)) = requested (trace full_state)"
  using C9_ceiling_stops_all_further_candidates [OF full_state_ceiling] full_state_ceiling
  by simp

text \<open>
  Claim C8: for every discovered link whose file name contains an ignore pattern the
  coordinator adds the name to the visited set, fetches nothing and writes nothing, and
  leaves the image set and the files as they are. As stated the claim fails at the page
  ceiling: the test of the ceiling comes first in \<^verbatim>\<open>crawl\<close>, which returns before the
  name is computed, and the name is not added.
\<close>

theorem C8_counterexample:
  "includes_str (pageFileName example_env ''https://example.com/Page-edit'') ''-edit'' \<and>
   ''-edit'' \<in> set ignorePatterns \<and>
   pageFileName example_env ''https://example.com/Page-edit''
     \<notin> set (visitedPages
         (crawl example_env ''https://example.com/Page-edit'' ''results/example.com''
            full_state))"
proof -
  have name: "pageFileName example_env ''https://example.com/Page-edit'' = ''Page-edit.md''"
    by code_simp
  have "''Page-edit.md'' \<notin> set full_visited"
    by (auto simp: full_visited_def)
  moreover have "visitedPages (crawl example_env ''https://example.com/Page-edit''
      ''results/example.com'' full_state) = full_visited"
    by (simp only: crawl_ceiling [OF full_state_ceiling]) (simp add: full_state_def)
  ultimately have "''Page-edit.md'' \<notin> set (visitedPages (crawl example_env
      ''https://example.com/Page-edit'' ''results/example.com'' full_state))"
    by simp
  moreover have "includes_str ''Page-edit.md'' ''-edit''"
    by code_simp
  moreover have "''-edit'' \<in> set ignorePatterns"
    by (simp add: ignorePatterns_def)
  ultimately show ?thesis by (simp only: name simp_thms)
qed

text \<open>
  Claim C8, below the page ceiling: the name of an ignored link is in the visited set
  after the call, the image set, the files and the suspended tasks are as before, and the
  trace has grown by log lines only: no request and no write.
\<close>

theorem C8_ignored_link_is_marked_and_not_fetched:
  "length (visitedPages s) < maxPages \<Longrightarrow>
   \<exists>pattern \<in> set ignorePatterns. includes_str (pageFileName e url) pattern \<Longrightarrow>
   pageFileName e url \<in> set (visitedPages (crawl e url b s)) \<and>
   imageDownloads (crawl e url b s) = imageDownloads s \<and>
   files (crawl e url b s) = files s \<and>
   pending (crawl e url b s) = pending s \<and>
   take (length (trace s)) (trace (crawl e url b s)) = trace s \<and>
   list_all is_log (drop (length (trace s)) (trace (crawl e url b s)))"
  by (simp add: crawl_def Let_def add_def)

theorem C8_witness:
  "length (visitedPages (main example_env)) < maxPages \<and>
   (\<exists>pattern \<in> set ignorePatterns.
      includes_str (pageFileName example_env ''https://example.com/Page-edit'') pattern) \<and>
   pageFileName example_env ''https://example.com/Page-edit''
     \<in> set (visitedPages (crawl example_env ''https://example.com/Page-edit''
         ''results/example.com'' (main example_env))) \<and>
   pending (crawl example_env ''https://example.com/Page-edit'' ''results/example.com''
       (main example_env)) = pending (main example_env)"
proof -
  have h1: "length (visitedPages (main example_env)) < maxPages"
    by code_simp
  have h2: "\<exists>pattern \<in> set ignorePatterns.
      includes_str (pageFileName example_env ''https://example.com/Page-edit'') pattern"
    by code_simp
  from C8_ignored_link_is_marked_and_not_fetched [OF h1 h2] h1 h2
  show ?thesis by simp
qed

section \<open>The claims on the Content Rewriter\<close>

text \<open>
  Claim C5: for every image URL at most one download is performed in a run, the test
  \<^verbatim>\<open>imageDownloads.has\<close> and the insertion being one atomic decision. In both variants
  the insertion follows \<^verbatim>\<open>await downloadImage\<close>, so every test made while a download is
  under way still fails. In \<^verbatim>\<open>webCrawler.ts\<close> the callbacks of \<^verbatim>\<open>$('img').each\<close> are
  not awaited: an image that occurs twice on the first page is requested twice. In
  \<^verbatim>\<open>part_000\<close> the loop of one page is sequential, but the handlers of two pages
  interleave: the first page shows the image and links to a second page that shows it too,
  and the second page is handled while the download started by the first is under way.
\<close>

theorem C5_same_image_requested_twice:
  "image_requests
     (trace (run_wc example_env
        [(0, Some [Img (Some ''https://example.com/i/x.png'') None,
                   Img (Some ''https://example.com/i/x.png'') None]),
         (0, None), (1, None)]
        (main_wc example_env)))
     = [''https://example.com/i/x.png'', ''https://example.com/i/x.png''] \<and>
   image_requests
     (trace (run example_env
        [(0, Some [Img (Some ''https://example.com/i/x.png'') None,
                   Anchor (Some ''https://example.com/A'')]),
         (0, None),
         (0, Some [Img (Some ''https://example.com/i/x.png'') None,
                   Anchor (Some ''https://example.com/A'')]),
         (1, Some [Img (Some ''https://example.com/i/x.png'') None]),
         (1, None)]
        (main example_env)))
     = [''https://example.com/i/x.png'', ''https://example.com/i/x.png'']"
  by code_simp

text \<open>
  Claim C1: for every page fetched, the file of the page holds the Markdown made from the
  rewritten document, written once and not overwritten with anything else. \<^verbatim>\<open>part_000\<close>
  writes each file once, with the converted text (\<open>page_inv_distinct_written\<close> above,
  \<open>writes_are_markdown\<close> below). The \<^verbatim>\<open>end\<close> handler of \<^verbatim>\<open>webCrawler.ts\<close> writes the
  Markdown of the document as fetched, not rewritten, and then, under the comment
  \<^verbatim>\<open>Save the modified markdown content\<close>, overwrites the same file with \<^verbatim>\<open>$.html()\<close>,
  which is HTML.
\<close>

theorem C1_wc_file_overwritten_with_html:
  "writes
     (trace (run_wc example_env
        [(0, Some [Other ''text'', Img (Some ''https://example.com/i/x.png'') None]),
         (0, None), (1, None), (1, Some [])]
        (main_wc example_env)))
     = [WriteFile ''results/example.com/.mdx''
          (Markdown None [Other ''text'', Img (Some ''https://example.com/i/x.png'') None]),
        WriteFile ''results/example.com/.mdx''
          (Html [Other ''text'', Img (Some ''https://example.com/i/x.png'') None])] \<and>
   files
     (run_wc example_env
        [(0, Some [Other ''text'', Img (Some ''https://example.com/i/x.png'') None]),
         (0, None), (1, None), (1, Some [])]
        (main_wc example_env)) ''results/example.com/.mdx''
     = Some (Html [Other ''text'', Img (Some ''https://example.com/i/x.png'') None]) \<and>
   pending
     (run_wc example_env
        [(0, Some [Other ''text'', Img (Some ''https://example.com/i/x.png'') None]),
         (0, None), (1, None), (1, Some [])]
        (main_wc example_env)) = [AwaitLinks ''https://example.com'']"
  by code_simp

subsection \<open>What \<^verbatim>\<open>part_000\<close> writes\<close>






lemma rewrite_links_simps [simp]:
  "rewrite_links e [] = []"
  "rewrite_links e (n # d) = fst (rewrite_link e n) @ rewrite_links e d"
  "rewrite_links e (d @ d') = rewrite_links e d @ rewrite_links e d'"
  by (simp_all add: rewrite_links_def)

lemma logs_from: "list_all is_log es \<Longrightarrow> list_all (effect_from e B) es"
proof (induction es)
  case (Cons x xs)
  then show ?case by (cases x) simp_all
qed simp

lemma effect_from_mono: "set B \<subseteq> set B' \<Longrightarrow> effect_from e B x \<Longrightarrow> effect_from e B' x"
  by (cases x) (auto simp: list_ex_iff)

lemma task_from_mono: "set B \<subseteq> set B' \<Longrightarrow> task_from e B t \<Longrightarrow> task_from e B' t"
  by (auto simp: task_from_def list_ex_iff split: option.splits)

lemma prov_inv_mono: "set B \<subseteq> set B' \<Longrightarrow> prov_inv e B s \<Longrightarrow> prov_inv e B' s"
  by (auto simp: prov_inv_def list_all_iff intro: effect_from_mono task_from_mono)

lemma save_page_prov:
  "list_ex (\<lambda>d. rewrite_links e dn = localise e d) B \<Longrightarrow> prov_inv e B s \<Longrightarrow>
   prov_inv e B (save_page e url f dn s)"
  by (auto simp: prov_inv_def save_page_def Let_def logs_from [OF link_logs] list_ex_iff)

lemma images_loop_prov:
  "list_ex (\<lambda>d. rewrite_links e (dn @ concat (map (img_local e) rest)) = localise e d) B \<Longrightarrow>
   prov_inv e B s \<Longrightarrow> prov_inv e B (images_loop e url f dn rest s)"
proof (induction e url f dn rest s rule: images_loop.induct)
  case (1 e url f dn s)
  then show ?case by (simp add: save_page_prov)
next
  case (2 e url f dn src cls rest s)
  then show ?case
    by (auto simp: prov_inv_def task_from_def)
qed simp_all

lemma crawl_prov: "prov_inv e B s \<Longrightarrow> prov_inv e B (crawl e url b s)"
  by (simp add: prov_inv_def crawl_def Let_def logs_from [OF extract_logs] task_from_def)

lemma fold_discover_prov: "prov_inv e B s \<Longrightarrow> prov_inv e B (fold (discover e) d s)"
proof (induction d arbitrary: s)
  case (Cons n d)
  from Cons.prems have "prov_inv e B (discover e n s)"
    by (cases "(e, n, s)" rule: discover.cases) (simp_all add: crawl_prov)
  then show ?case using Cons.IH by simp
qed simp

lemma resume_prov:
  assumes "task_from e B t" and "prov_inv e B s" and "\<forall>d. r = Some d \<longrightarrow> d \<in> set B"
  shows "prov_inv e B (resume e t r s)"
proof (cases "(e, t, r, s)" rule: resume.cases)
  case (1 e' url f s')
  with assms show ?thesis by (simp add: prov_inv_def task_from_def)
next
  case (2 e' url f d s')
  with assms show ?thesis by (auto simp: prov_inv_def task_from_def list_ex_iff)
next
  case (3 e' url f d r' s')
  with assms show ?thesis
    by (auto simp: task_from_def localise_def intro!: images_loop_prov)
next
  case (4 e' url s')
  with assms show ?thesis by (simp add: prov_inv_def)
next
  case (5 e' url d s')
  with assms show ?thesis by (simp add: fold_discover_prov)
next
  case (6 e' url f dn src cls rest r' s')
  from 6 assms(2)
  have "prov_inv e (B) (downloadImage_done src (path_join (path_dirname f) (path_basename src))
      (r' \<noteq> None) s'\<lparr>imageDownloads := add src (imageDownloads s')\<rparr>)"
    by (simp add: prov_inv_def downloadImage_done_def)
  moreover from 6 assms(1)
  have "list_ex (\<lambda>d. rewrite_links e
      ((dn @ outer_replace e (Img (Some src) cls) src (path_basename src)) @
       concat (map (img_local e) rest)) = localise e d) B"
    by (simp add: task_from_def)
  ultimately show ?thesis
    using 6 by (simp add: Let_def images_loop_prov)
qed (use assms in simp_all)

lemma step_prov: "prov_inv e B s \<Longrightarrow> prov_inv e (body_of ev @ B) (step e ev s)"
proof (cases "fst ev < length (pending s)")
  case True
  let ?B = "body_of ev @ B"
  assume "prov_inv e B s"
  then have inv: "prov_inv e ?B s"
    by (rule prov_inv_mono [rotated]) auto
  with True have "task_from e ?B (pending s ! fst ev)"
    by (simp add: prov_inv_def list_all_length)
  moreover from inv
  have "prov_inv e ?B
      (s\<lparr>pending := take (fst ev) (pending s) @ drop (Suc (fst ev)) (pending s)\<rparr>)"
    by (auto simp: prov_inv_def list_all_iff dest: in_set_takeD in_set_dropD)
  moreover have "\<forall>d. snd ev = Some d \<longrightarrow> d \<in> set ?B"
    by (cases ev) auto
  ultimately show ?thesis
    using True by (simp add: step_def Let_def resume_prov)
next
  case False
  assume "prov_inv e B s"
  then have "prov_inv e (body_of ev @ B) s"
    by (rule prov_inv_mono [rotated]) auto
  with False show ?thesis by (simp add: step_def Let_def)
qed

lemma run_prov:
  "prov_inv e B s \<Longrightarrow> set B \<union> set (bodies evs) \<subseteq> set B' \<Longrightarrow> prov_inv e B' (run e evs s)"
  unfolding run_def
proof (induction evs arbitrary: s B)
  case Nil
  then show ?case by (auto intro: prov_inv_mono)
next
  case (Cons ev evs)
  from Cons.prems(1) have "prov_inv e (body_of ev @ B) (step e ev s)"
    by (rule step_prov)
  moreover from Cons.prems(2) have "set (body_of ev @ B) \<union> set (bodies evs) \<subseteq> set B'"
    by (auto simp: bodies_def)
  ultimately show ?case
    using Cons.IH by simp
qed

lemma main_prov: "prov_inv e (bodies evs) (run e evs (main e))"
proof -
  have "prov_inv e [] (main e)"
    unfolding main_def by (intro crawl_prov) (simp add: prov_inv_def init_def)
  then show ?thesis
    by (rule run_prov) simp
qed

text \<open>Every call of \<^verbatim>\<open>fs.writeFile\<close> in a run of \<^verbatim>\<open>part_000\<close> writes the converted
  text of a document.\<close>

lemma writes_are_markdown:
  "WriteFile f c \<in> set (trace (run e evs (main e))) \<Longrightarrow> \<exists>r d. c = Markdown r d"
proof -
  assume "WriteFile f c \<in> set (trace (run e evs (main e)))"
  with main_prov [of e evs] have "effect_from e (bodies evs) (WriteFile f c)"
    by (auto simp: prov_inv_def list_all_iff)
  then show ?thesis by (auto simp: list_ex_iff elementToMDX_def)
qed







text \<open>The rewrite of \<^verbatim>\<open>part_000\<close> is a replacement of text in the serialised element,
  and it changes nothing when the text is not found there, as for a target with an
  ampersand: the rewrite applies to the anchor, and the anchor is written as it came.\<close>

lemma replacement_not_found_example:
  "rewritable example_env ''https://example.com/a?x=1&y=2'' \<and>
   \<not> replaces example_env (Anchor (Some ''https://example.com/a?x=1&y=2'')) \<and>
   localise example_env [Anchor (Some ''https://example.com/a?x=1&y=2'')] =
     [Anchor (Some ''https://example.com/a?x=1&y=2'')]"
  by code_simp



section \<open>The claim on failures\<close>

text \<open>Requests that fail are caught, in both variants: the failure is logged and every
  other task stays suspended as it was. A failed page request changes neither the sets nor
  the files and leaves \<^verbatim>\<open>crawl\<close> at its own request of the URL; in a run the file of
  that page is never written afterwards, and \<^verbatim>\<open>downloadAndSavePage\<close> is not called for
  it again. A failed request for the links ends that call of \<^verbatim>\<open>crawl\<close>. A failed image
  is marked as downloaded all the same, and the handler of the page goes on.\<close>

lemma page_inv_dead_requested: "page_inv e {#f#} s \<Longrightarrow> f \<in> set (requested (trace s))"
proof -
  assume "page_inv e {#f#} s"
  then have "tokens s + {#f#} \<subseteq># mset (requested (trace s))"
    by (simp add: page_inv_def)
  moreover have "f \<in># tokens s + {#f#}"
    by simp
  ultimately have "f \<in># mset (requested (trace s))"
    by (rule mset_subset_eqD)
  then show ?thesis by simp
qed

lemma failed_page_is_dead:
  assumes "page_inv e {#} s" and "i < length (pending s)" and "pending s ! i = AwaitPage url f"
  shows "page_inv e {#f#} (step e (i, None) s)"
proof -
  let ?s0 = "s\<lparr>pending := take i (pending s) @ drop (Suc i) (pending s)\<rparr>"
  from assms(2,3) have "tokens ?s0 + {#f#} = tokens s"
    using tokens_remove [of i s] by simp
  with assms(1) have "page_inv e {#f#} ?s0"
    by (simp add: page_inv_def)
  then have "page_inv e {#f#} (resume e (AwaitPage url f) None ?s0)"
    by (simp add: page_inv_def)
  with assms(2,3) show ?thesis
    by (simp add: step_def Let_def)
qed

lemma caught_failures_are_local:
  "i < length (pending s) \<Longrightarrow>
   (pending s ! i = AwaitPage url f \<longrightarrow>
      step e (i, None) s =
        s\<lparr>trace := trace s @ [Log (FailedPage url), GetLinks url],
          pending := take i (pending s) @ drop (Suc i) (pending s) @ [AwaitLinks url]\<rparr> \<and>
      step_wc e (i, None) s = step e (i, None) s) \<and>
   (pending s ! i = AwaitPage url f \<and> s = run e evs0 (main e) \<longrightarrow>
      f \<notin> set (written (trace (run e evs (step e (i, None) s)))) \<and>
      f \<in> set (requested (trace (run e evs (step e (i, None) s)))) \<and>
      distinct (requested (trace (run e evs (step e (i, None) s))))) \<and>
   (pending s ! i = AwaitPage url f \<and> s = run_wc e evs0 (main_wc e) \<longrightarrow>
      f \<notin> set (written (trace (run_wc e evs (step_wc e (i, None) s)))) \<and>
      distinct (requested (trace (run_wc e evs (step_wc e (i, None) s))))) \<and>
   (pending s ! i = AwaitLinks url \<longrightarrow>
      step e (i, None) s =
        s\<lparr>trace := trace s @ [Log (FailedCrawl url)],
          pending := take i (pending s) @ drop (Suc i) (pending s)\<rparr> \<and>
      step_wc e (i, None) s = step e (i, None) s) \<and>
   (pending s ! i = AwaitImage url f done imgSrc cls rest \<longrightarrow>
      step e (i, None) s =
        images_loop e url f
          (done @ outer_replace e (Img (Some imgSrc) cls) imgSrc (path_basename imgSrc)) rest
          (s\<lparr>pending := take i (pending s) @ drop (Suc i) (pending s),
             trace := trace s @ [Log (FailedImage imgSrc)],
             imageDownloads := add imgSrc (imageDownloads s)\<rparr>)) \<and>
   (pending s ! i = AwaitImage_wc imgSrc p \<longrightarrow>
      step_wc e (i, None) s =
        s\<lparr>imageDownloads := add imgSrc (imageDownloads s),
          trace := trace s @ [Log (FailedImage imgSrc)],
          pending := take i (pending s) @ drop (Suc i) (pending s)\<rparr>)"
proof (intro conjI impI)
  assume i: "i < length (pending s)"
  {
    assume t: "pending s ! i = AwaitPage url f \<and> s = run e evs0 (main e)"
    then have t1: "pending s ! i = AwaitPage url f" and t2: "s = run e evs0 (main e)"
      by blast+
    have inv: "page_inv e {#} s"
      unfolding t2 by (rule main_page_inv)
    have "page_inv e {#f#} (step e (i, None) s)"
      using inv i t1 by (rule failed_page_is_dead)
    then have dead: "page_inv e {#f#} (run e evs (step e (i, None) s))"
      by (rule run_page_inv)
    then show "f \<notin> set (written (trace (run e evs (step e (i, None) s))))"
      by (rule page_inv_dead_not_written)
    from dead show "f \<in> set (requested (trace (run e evs (step e (i, None) s))))"
      by (rule page_inv_dead_requested)
    from dead show "distinct (requested (trace (run e evs (step e (i, None) s))))"
      by (simp add: page_inv_def)
  }
  {
    assume t: "pending s ! i = AwaitPage url f \<and> s = run_wc e evs0 (main_wc e)"
    then have t1: "pending s ! i = AwaitPage url f" and t2: "s = run_wc e evs0 (main_wc e)"
      by blast+
    have inv: "page_inv_wc e {#} s"
      unfolding t2 by (rule main_wc_page_inv_wc)
    have "page_inv_wc e {#f, f#} (step_wc e (i, None) s)"
      using inv i t1 by (rule failed_page_is_dead_wc)
    then have dead: "page_inv_wc e {#f, f#} (run_wc e evs (step_wc e (i, None) s))"
      by (rule run_wc_page_inv_wc)
    then show "f \<notin> set (written (trace (run_wc e evs (step_wc e (i, None) s))))"
      by (rule page_inv_wc_dead_not_written)
    from dead show "distinct (requested (trace (run_wc e evs (step_wc e (i, None) s))))"
      by (simp add: page_inv_wc_def req_inv_def)
  }
qed (simp_all add: step_def step_wc_def Let_def emit_def suspend_def downloadImage_done_def)

text \<open>After a failed request of \<^verbatim>\<open>downloadAndSavePage\<close>, which \<^verbatim>\<open>crawl\<close> cannot
  see, \<^verbatim>\<open>crawl\<close> makes its own request of the page as usual and crawls the links when
  that request is answered.\<close>

lemma discovery_follows_failed_page:
  "trace (run example_env [(0, None), (0, Some [Anchor (Some ''https://example.com/A'')])]
     (main example_env)) =
     [GetPage ''https://example.com'' ''results/example.com/index.md'',
      Log (FailedPage ''https://example.com''),
      GetLinks ''https://example.com'',
      GetPage ''https://example.com/A'' ''results/example.com/A.md'']"
  by code_simp

text \<open>A response stream that breaks off ends the run: whatever events follow, nothing
  happens any more. The runs in which a stream breaks off are the runs in which none
  does, cut short.\<close>

lemma step_no_task: "pending s = [] \<Longrightarrow> step e ev s = s"
  by (simp add: step_def Let_def)

lemma step_wc_no_task: "pending s = [] \<Longrightarrow> step_wc e ev s = s"
  by (simp add: step_wc_def Let_def)

lemma stream_error_no_task: "pending s = [] \<Longrightarrow> stream_error i s = s"
  by (simp add: stream_error_def)

lemma exec_no_task: "pending s = [] \<Longrightarrow> exec e evs s = s"
  unfolding exec_def
proof (induction evs)
  case (Cons ev evs)
  then have "step_event e ev s = s"
    by (cases ev) (simp_all add: step_no_task stream_error_no_task)
  with Cons show ?case by simp
qed simp

lemma exec_wc_no_task: "pending s = [] \<Longrightarrow> exec_wc e evs s = s"
  unfolding exec_wc_def
proof (induction evs)
  case (Cons ev evs)
  then have "step_event_wc e ev s = s"
    by (cases ev) (simp_all add: step_wc_no_task stream_error_no_task)
  with Cons show ?case by simp
qed simp

lemma pending_crash [simp]: "pending (crash url s) = []"
  by (simp add: crash_def)

lemma broken_stream_ends_run:
  "i < length (pending s) \<Longrightarrow> stream_of (pending s ! i) = Some url \<Longrightarrow>
   exec e (StreamError i # evs) s = crash url s \<and>
   exec_wc e (StreamError i # evs) s = crash url s"
proof -
  assume "i < length (pending s)" "stream_of (pending s ! i) = Some url"
  then have "stream_error i s = crash url s"
    by (simp add: stream_error_def)
  moreover have "exec e evs (crash url s) = crash url s"
    by (rule exec_no_task) simp
  moreover have "exec_wc e evs (crash url s) = crash url s"
    by (rule exec_wc_no_task) simp
  ultimately show ?thesis
    by (simp add: exec_def exec_wc_def)
qed

lemma exec_snoc: "exec e (evs @ [ev]) s = step_event e ev (exec e evs s)"
  by (simp add: exec_def)

lemma run_snoc: "run e (evs @ [ev]) s = step e ev (run e evs s)"
  by (simp add: run_def)

lemma exec_is_run_cut_short:
  "(\<exists>evs'. exec e evs s = run e evs' s) \<or>
   (\<exists>evs' url. exec e evs s = crash url (run e evs' s))"
proof (induction evs rule: rev_induct)
  case Nil
  have "exec e [] s = run e [] s"
    by (simp add: exec_def run_def)
  then show ?case by blast
next
  case (snoc ev evs)
  from snoc show ?case
  proof (elim disjE exE)
    fix evs' assume r: "exec e evs s = run e evs' s"
    show ?thesis
    proof (cases ev)
      case (Resume i r')
      with r have "exec e (evs @ [ev]) s = run e (evs' @ [(i, r')]) s"
        by (simp add: exec_snoc run_snoc)
      then show ?thesis by blast
    next
      case (StreamError i)
      have "stream_error i (run e evs' s) = run e evs' s \<or>
          (\<exists>url. stream_error i (run e evs' s) = crash url (run e evs' s))"
        by (auto simp: stream_error_def split: option.splits)
      with r StreamError show ?thesis
        by (auto simp: exec_snoc)
    qed
  next
    fix evs' url assume c: "exec e evs s = crash url (run e evs' s)"
    have "step_event e ev (crash url (run e evs' s)) = crash url (run e evs' s)"
      by (cases ev) (simp_all add: step_no_task stream_error_no_task)
    with c have "exec e (evs @ [ev]) s = crash url (run e evs' s)"
      by (simp add: exec_snoc)
    then show ?thesis by blast
  qed
qed


section \<open>The claims on the URL Normalizer\<close>

text \<open>
  Claim C3: for every input URL the normaliser returns a non-empty name, and \<^verbatim>\<open>index\<close>
  for the root path, for an unparsable URL and for a path of separators only.
  \<^verbatim>\<open>part_000\<close> does so (\<open>pathSegmentToFilename_shape\<close>,
  \<open>pathSegmentToFilename_only_separators\<close>). In \<^verbatim>\<open>webCrawler.ts\<close> the test for the
  empty name comes before the dash at the start is removed: the root path \<^verbatim>\<open>/\<close> becomes
  a single dash, passes the test and is stripped to the empty name, so that the first page
  of every run, \<^verbatim>\<open>https://<domain>\<close>, is recorded and saved under the bare extension
  \<^verbatim>\<open>.mdx\<close>.
\<close>

theorem C3_wc_root_path_gives_empty_name:
  "pathSegmentToFilename_wc ''/'' = [] \<and>
   example_pathname ''https://example.com'' = Some ''/'' \<and>
   visitedPages (main_wc example_env) = [''.mdx''] \<and>
   pending (main_wc example_env) =
     [AwaitPage ''https://example.com'' ''results/example.com/.mdx'']"
  by code_simp

text \<open>
  Claim C4: for every input path the name has no two separators in a row and neither
  starts nor ends with a separator. \<^verbatim>\<open>part_000\<close> does so
  (\<open>pathSegmentToFilename_shape\<close>). \<^verbatim>\<open>webCrawler.ts\<close> strips and collapses the dashes
  of the path before it replaces the other characters by dashes, so the dashes that the
  replacement makes are neither collapsed nor, beyond one at each end, stripped.
\<close>

theorem C4_wc_separators_not_collapsed:
  "pathSegmentToFilename_wc ''/a/1/b'' = ''a---b'' \<and>
   includes_dd (pathSegmentToFilename_wc ''/a/1/b'') \<and>
   pathSegmentToFilename_wc ''/12'' = ''-'' \<and>
   startsWith (pathSegmentToFilename_wc ''/12'') CHR ''-'' \<and>
   endsWith (pathSegmentToFilename_wc ''/12'') CHR ''-''"
  by code_simp

end
